theory Spec2Isabelle
  imports Main "HOL-Library.Word" "HOL-Library.Monad_Syntax"
begin

unbundle bit_operations_syntax

section \<open>The guest side of a virtio ring (drivers/virtio-vring.cc)\<close>

text \<open>
  The embedding follows \<^verbatim>\<open>src/drivers/virtio-vring.cc\<close> function by function.
  Machine integers are words of the width the C++ type has on the LP64 targets the
  kernel is built for: \<^verbatim>\<open>u16\<close> is 16 bits, \<^verbatim>\<open>unsigned\<close> is 32 bits,
  \<^verbatim>\<open>unsigned long\<close> and \<^verbatim>\<open>size_t\<close> are 64 bits. Arithmetic on words wraps
  around as the machine's does. Where C++ promotes a \<^verbatim>\<open>u16\<close> operand to \<^verbatim>\<open>int\<close>
  the model computes on \<open>int\<close> and converts back where the source casts.
\<close>

type_synonym u8 = "8 word"
type_synonym u16 = "16 word"
type_synonym u32 = "32 word"
type_synonym u64 = "64 word"

subsection \<open>Notification hold-off: \<^verbatim>\<open>vring::need_event\<close>\<close>

text \<open>
  \<^verbatim>\<open>return ( (u16)(new_idx - event_idx - 1) < (u16)(new_idx - old) );\<close>
  The three \<^verbatim>\<open>u16\<close> arguments are promoted to \<^verbatim>\<open>int\<close>, the differences are
  taken there (they may be negative), each cast truncates to 16 bits, and the comparison
  yields the \<^verbatim>\<open>int\<close> 1 or 0.
\<close>

definition need_event :: "u16 \<Rightarrow> u16 \<Rightarrow> u16 \<Rightarrow> int" where
  "need_event event_idx new_idx old =
     (if (word_of_int (uint new_idx - uint event_idx - 1) :: u16)
          < (word_of_int (uint new_idx - uint old) :: u16)
      then 1 else 0)"

subsection \<open>Declarations of the headers\<close>

text \<open>
  \<^verbatim>\<open>drivers/virtio-vring.hh\<close>, \<^verbatim>\<open>drivers/virtio.hh\<close> and \<^verbatim>\<open>kern/sglist.hh\<close> are not
  among the sources. What the functions of \<^verbatim>\<open>virtio-vring.cc\<close> use of them is
  declared here, from the data model of the spec (its section 3), which lists the fields
  of each ring structure in order with their widths.
\<close>

text \<open>
  Modelled from the spec: the sizes of the structures of \<^verbatim>\<open>drivers/virtio-vring.hh\<close>. A
  descriptor is \<^verbatim>\<open>{ address: u64, length: u32, flags, next: u16 }\<close> with the 16-bit
  flags of the ring protocol, 16 bytes; a used element is \<^verbatim>\<open>{ id: u32, len: u32 }\<close>,
  8 bytes. \<^verbatim>\<open>sizeof\<close> yields a \<^verbatim>\<open>size_t\<close>.
\<close>

definition sizeof_vring_desc :: u64 where "sizeof_vring_desc = 16"
definition sizeof_vring_used_elem :: u64 where "sizeof_vring_used_elem = 8"
definition sizeof_u16 :: u64 where "sizeof_u16 = 2"

text \<open>
  Modelled from the spec: the byte offsets of the descriptor's fields
  \<^verbatim>\<open>_paddr\<close>, \<^verbatim>\<open>_len\<close>, \<^verbatim>\<open>_flags\<close> and \<^verbatim>\<open>_next\<close> of \<^verbatim>\<open>drivers/virtio-vring.hh\<close>, in
  the order and with the widths of the spec's descriptor. The available ring is
  \<^verbatim>\<open>{ flags: u16, idx: u16, ring: u16[num], used_event: u16 }\<close> and the used ring is
  \<^verbatim>\<open>{ flags: u16, idx: u16, ring: {id: u32, len: u32}[num], avail_event: u16 }\<close>; their
  offsets are with the pointers below.
\<close>

definition desc_paddr :: "nat \<Rightarrow> nat" where "desc_paddr d = d"
definition desc_len :: "nat \<Rightarrow> nat" where "desc_len d = d + 8"
definition desc_flags :: "nat \<Rightarrow> nat" where "desc_flags d = d + 12"
definition desc_next :: "nat \<Rightarrow> nat" where "desc_next d = d + 14"

text \<open>
  Modelled from the spec: the enumerators \<^verbatim>\<open>vring_desc::VRING_DESC_F_NEXT\<close> and
  \<^verbatim>\<open>vring_desc::VRING_DESC_F_WRITE\<close> of \<^verbatim>\<open>drivers/virtio-vring.hh\<close>, the spec's flags
  \<^verbatim>\<open>HAS_NEXT\<close> and \<^verbatim>\<open>DEVICE_WRITABLE\<close>, with their bit values in the ring protocol.
\<close>

definition VRING_DESC_F_NEXT :: int where "VRING_DESC_F_NEXT = 1"
definition VRING_DESC_F_WRITE :: int where "VRING_DESC_F_WRITE = 2"

text \<open>
  Modelled from the spec: the macros \<^verbatim>\<open>VIRTIO_PCI_VRING_ALIGN\<close> and \<^verbatim>\<open>VIRTIO_ALIGN\<close>
  of \<^verbatim>\<open>drivers/virtio.hh\<close>. The alignment is the spec's "protocol-mandated
  page-granularity constant", 4096, and \<^verbatim>\<open>VIRTIO_ALIGN\<close> rounds its argument, an
  \<^verbatim>\<open>unsigned\<close> where the constructor uses it, up to a multiple of it.
\<close>

definition VIRTIO_PCI_VRING_ALIGN :: int where "VIRTIO_PCI_VRING_ALIGN = 4096"

definition VIRTIO_ALIGN :: "u32 \<Rightarrow> u32" where
  "VIRTIO_ALIGN x =
     (x + word_of_int (VIRTIO_PCI_VRING_ALIGN - 1)) AND word_of_int (NOT (VIRTIO_PCI_VRING_ALIGN - 1))"

text \<open>
  Modelled from the spec: the node of a scatter/gather list of \<^verbatim>\<open>kern/sglist.hh\<close>, a
  physical address and a length, with the fields \<^verbatim>\<open>_paddr\<close> and \<^verbatim>\<open>_len\<close> that
  \<^verbatim>\<open>add_buf\<close> reads and the widths of the descriptor fields they are copied to.
\<close>

record sg_node =
  sg_paddr :: u64
  sg_len :: u32

subsection \<open>Layout: \<^verbatim>\<open>vring::get_size\<close>\<close>

text \<open>
  \<^verbatim>\<open>unsigned vring::get_size(unsigned int num, unsigned long align)\<close> returns
  \<^verbatim>\<open>(((sizeof(vring_desc) * num + sizeof(u16) * (3 + num) + align - 1) & ~(align - 1))
     + sizeof(u16) * 3 + sizeof(vring_used_elem) * num)\<close>.
  \<^verbatim>\<open>3 + num\<close> is computed in \<^verbatim>\<open>unsigned int\<close>, every product and sum with a
  \<^verbatim>\<open>sizeof\<close> in \<^verbatim>\<open>size_t\<close>, and the result is converted to the 32-bit return
  type. \<open>used_offset\<close> is the first operand of the outer sum, the offset at which the
  used ring starts.
\<close>

definition used_offset :: "u32 \<Rightarrow> u64 \<Rightarrow> u64" where
  "used_offset num align =
     (sizeof_vring_desc * ucast num + sizeof_u16 * ucast (3 + num) + align - 1)
       AND NOT (align - 1)"

definition get_size :: "u32 \<Rightarrow> u64 \<Rightarrow> u32" where
  "get_size num align =
     ucast (used_offset num align + sizeof_u16 * 3 + sizeof_vring_used_elem * ucast num)"

text \<open>
  The layout formula in the spec's words, over the natural numbers:
  \<open>round_up (desc_bytes + avail_bytes) align + used_bytes\<close>, where \<open>round_up x a\<close> is
  the least multiple of \<open>a\<close> that is not below \<open>x\<close>.
\<close>

definition round_up :: "nat \<Rightarrow> nat \<Rightarrow> nat" where
  "round_up x a = (x + a - 1) div a * a"

definition desc_bytes :: "nat \<Rightarrow> nat" where "desc_bytes num = 16 * num"
definition avail_bytes :: "nat \<Rightarrow> nat" where "avail_bytes num = 2 * (3 + num)"
definition used_bytes :: "nat \<Rightarrow> nat" where "used_bytes num = 2 * 3 + 8 * num"

definition get_size_spec :: "nat \<Rightarrow> nat \<Rightarrow> nat" where
  "get_size_spec num align = round_up (desc_bytes num + avail_bytes num) align + used_bytes num"

subsection \<open>The backing region\<close>

text \<open>
  The ring lives in one block obtained from \<^verbatim>\<open>malloc\<close>; \<^verbatim>\<open>_desc\<close>, \<^verbatim>\<open>_avail\<close> and
  \<^verbatim>\<open>_used\<close> point into it, and the code reaches descriptors and ring slots by pointer
  arithmetic without any bounds check, so a descriptor index that leaves the table lands
  in the available ring. The model therefore keeps the block as bytes: \<open>heap\<close> maps a byte
  offset from \<^verbatim>\<open>_vring_ptr\<close> to the byte stored there, \<open>heap_size\<close> is the size that
  was allocated, and the three pointers are byte offsets into the block. Multi-byte fields
  are little-endian. An access that leaves the block has no defined behaviour; the model
  returns \<open>None\<close> there. Only the bytes below \<open>heap_size\<close> belong to the block: what
  \<open>heap\<close> gives at or beyond \<open>heap_size\<close> stands for no memory of the ring, no load
  reads it, and no property below speaks of it.
\<close>

record vring =
  v_drv :: u64
  v_q_index :: u16
  v_vring_ptr :: u64
  v_num :: u16
  v_desc :: nat
  v_avail :: nat
  v_used :: nat
  heap_size :: nat
  heap :: "nat \<Rightarrow> u8"

primrec poke :: "(nat \<Rightarrow> u8) \<Rightarrow> nat \<Rightarrow> u8 list \<Rightarrow> nat \<Rightarrow> u8" where
  "poke m a [] = m"
| "poke m a (b # bs) = poke (m(a := b)) (Suc a) bs"

definition store :: "vring \<Rightarrow> nat \<Rightarrow> u8 list \<Rightarrow> vring option" where
  "store v a bs =
     (if a + length bs \<le> heap_size v then Some (v\<lparr>heap := poke (heap v) a bs\<rparr>) else None)"

definition store_u16 :: "vring \<Rightarrow> nat \<Rightarrow> u16 \<Rightarrow> vring option" where
  "store_u16 v a x = store v a [ucast x, ucast (drop_bit 8 x)]"

definition store_u32 :: "vring \<Rightarrow> nat \<Rightarrow> u32 \<Rightarrow> vring option" where
  "store_u32 v a x =
     store v a [ucast x, ucast (drop_bit 8 x), ucast (drop_bit 16 x), ucast (drop_bit 24 x)]"

definition store_u64 :: "vring \<Rightarrow> nat \<Rightarrow> u64 \<Rightarrow> vring option" where
  "store_u64 v a x =
     store v a [ucast x, ucast (drop_bit 8 x), ucast (drop_bit 16 x), ucast (drop_bit 24 x),
                ucast (drop_bit 32 x), ucast (drop_bit 40 x), ucast (drop_bit 48 x),
                ucast (drop_bit 56 x)]"

definition load_u16 :: "vring \<Rightarrow> nat \<Rightarrow> u16 option" where
  "load_u16 v a =
     (if a + 2 \<le> heap_size v
      then Some (ucast (heap v a) OR push_bit 8 (ucast (heap v (a + 1))))
      else None)"

definition load_u32 :: "vring \<Rightarrow> nat \<Rightarrow> u32 option" where
  "load_u32 v a =
     (if a + 4 \<le> heap_size v
      then Some (ucast (heap v a) OR push_bit 8 (ucast (heap v (a + 1)))
                 OR push_bit 16 (ucast (heap v (a + 2))) OR push_bit 24 (ucast (heap v (a + 3))))
      else None)"

definition load_u64 :: "vring \<Rightarrow> nat \<Rightarrow> u64 option" where
  "load_u64 v a =
     (if a + 8 \<le> heap_size v
      then Some (ucast (heap v a) OR push_bit 8 (ucast (heap v (a + 1)))
                 OR push_bit 16 (ucast (heap v (a + 2))) OR push_bit 24 (ucast (heap v (a + 3)))
                 OR push_bit 32 (ucast (heap v (a + 4))) OR push_bit 40 (ucast (heap v (a + 5)))
                 OR push_bit 48 (ucast (heap v (a + 6))) OR push_bit 56 (ucast (heap v (a + 7))))
      else None)"

text \<open>
  \<^verbatim>\<open>&_desc[r]\<close>, \<^verbatim>\<open>&_avail->_idx\<close>, \<^verbatim>\<open>&_avail->_ring[i]\<close>, \<^verbatim>\<open>&_used->_idx\<close> and
  \<^verbatim>\<open>&_used->_ring[i]\<close> as offsets into the block, with the field offsets of the two
  ring structures given above.
\<close>

definition desc_at :: "vring \<Rightarrow> u16 \<Rightarrow> nat" where
  "desc_at v r = v_desc v + 16 * unat r"

definition avail_idx :: "vring \<Rightarrow> nat" where
  "avail_idx v = v_avail v + 2"

definition avail_ring :: "vring \<Rightarrow> nat \<Rightarrow> nat" where
  "avail_ring v i = v_avail v + 4 + 2 * i"

definition used_idx :: "vring \<Rightarrow> nat" where
  "used_idx v = v_used v + 2"

definition used_ring :: "vring \<Rightarrow> nat \<Rightarrow> nat" where
  "used_ring v i = v_used v + 4 + 8 * i"

subsection \<open>Construction: \<^verbatim>\<open>vring::vring\<close>\<close>

text \<open>
  \<^verbatim>\<open>for (int i=0;i<num;i++) _avail->_ring[i] = i+1;\<close>
  The bound is the constructor's parameter \<^verbatim>\<open>num\<close>.
\<close>

function init_ring :: "vring \<Rightarrow> u16 \<Rightarrow> nat \<Rightarrow> vring option" where
  "init_ring v num i =
     (if i < unat num
      then do { v' \<leftarrow> store_u16 v (avail_ring v i) (of_nat (i + 1)); init_ring v' num (i + 1) }
      else Some v)"
  by pat_completeness auto
termination
  by (relation "measure (\<lambda>(v, num, i). unat num - i)") auto

text \<open>
  The constructor. \<open>p\<close> stands for what \<^verbatim>\<open>malloc(sz)\<close> returned, the null pointer when
  the allocation failed; the code passes it to \<^verbatim>\<open>memset\<close> unchecked, which is a write
  through the null pointer then. \<^verbatim>\<open>memset\<close> zeroes the \<open>sz\<close> bytes of the block.
  \<^verbatim>\<open>_used\<close> is computed from the address of \<^verbatim>\<open>_avail->_ring[num]\<close>, rounded up
  after adding \<^verbatim>\<open>sizeof(u16)\<close>; the model keeps its distance from \<^verbatim>\<open>_vring_ptr\<close>.
  It is the address that is rounded up, while \<^verbatim>\<open>get_size\<close> rounds the offset, so the
  two agree when the block starts at a multiple of the alignment.
\<close>

definition vring_ctor :: "u64 \<Rightarrow> u64 \<Rightarrow> u16 \<Rightarrow> u16 \<Rightarrow> vring option" where
  "vring_ctor p drv num q_index =
     (let sz = VIRTIO_ALIGN (get_size (ucast num) (word_of_int VIRTIO_PCI_VRING_ALIGN)) in
      if p = 0 then None
      else
        let avail = unat num * 16;
            ring_end = avail + 4 + 2 * unat num;
            used = unat (((p + of_nat ring_end + sizeof_u16 + word_of_int VIRTIO_PCI_VRING_ALIGN - 1)
                            AND word_of_int (NOT (VIRTIO_PCI_VRING_ALIGN - 1))) - p)
        in init_ring \<lparr> v_drv = drv, v_q_index = q_index, v_vring_ptr = p, v_num = num,
                        v_desc = 0, v_avail = avail, v_used = used, heap_size = unat sz,
                        heap = (\<lambda>_. 0) \<rparr> num 0)"

subsection \<open>Submission: \<^verbatim>\<open>vring::add_buf\<close>\<close>

text \<open>
  \<^verbatim>\<open>desc->_flags = vring_desc::VRING_DESC_F_NEXT | (i>in)? vring_desc::VRING_DESC_F_WRITE:0;\<close>
  The conditional operator binds weaker than \<^verbatim>\<open>|\<close>, so the condition is
  \<^verbatim>\<open>VRING_DESC_F_NEXT | (i>in)\<close> and the value is one of the two branches.
\<close>

definition flags_expr :: "nat \<Rightarrow> u16 \<Rightarrow> u16" where
  "flags_expr i in' =
     word_of_int (if (VRING_DESC_F_NEXT OR (if uint in' < int i then 1 else 0)) \<noteq> 0
                  then VRING_DESC_F_WRITE else 0)"

text \<open>
  The body of the loop of \<^verbatim>\<open>add_buf\<close>, for the descriptor at \<open>desc\<close>, the node
  \<^verbatim>\<open>*ii\<close> and the counter \<open>i\<close>; it returns the ring and the descriptor pointer for
  the next round. Each statement reads the block as the statements before it left it:
  \<^verbatim>\<open>desc->_flags = ...; desc->_paddr = (*ii)._paddr; desc->_len = (*ii)._len;
  desc->_next = _avail->_ring[_avail->_idx]; _avail->_idx++;
  desc = &_desc[_avail->_ring[desc->_next]];\<close>
\<close>

definition add_buf_body :: "vring \<Rightarrow> nat \<Rightarrow> sg_node \<Rightarrow> nat \<Rightarrow> u16 \<Rightarrow> (vring \<times> nat) option" where
  "add_buf_body v desc node i in' = do {
     v1 \<leftarrow> store_u16 v (desc_flags desc) (flags_expr i in');
     v2 \<leftarrow> store_u64 v1 (desc_paddr desc) (sg_paddr node);
     v3 \<leftarrow> store_u32 v2 (desc_len desc) (sg_len node);
     idx \<leftarrow> load_u16 v3 (avail_idx v3);
     r \<leftarrow> load_u16 v3 (avail_ring v3 (unat idx));
     v4 \<leftarrow> store_u16 v3 (desc_next desc) r;
     idx' \<leftarrow> load_u16 v4 (avail_idx v4);
     v5 \<leftarrow> store_u16 v4 (avail_idx v4) (idx' + 1);
     nxt \<leftarrow> load_u16 v5 (desc_next desc);
     r' \<leftarrow> load_u16 v5 (avail_ring v5 (unat nxt));
     Some (v5, desc_at v5 r')
   }"

text \<open>
  The loop \<^verbatim>\<open>for (auto ii = sg->_nodes.begin(); i<in+out; ii++) { ...; i++; }\<close>:
  \<open>ii\<close> is the list iterator (the nodes not yet visited; dereferencing it at the end of
  the list is undefined), and \<^verbatim>\<open>in+out\<close> is computed in \<^verbatim>\<open>int\<close>.
\<close>

function add_buf_loop ::
  "vring \<Rightarrow> nat \<Rightarrow> sg_node list \<Rightarrow> nat \<Rightarrow> u16 \<Rightarrow> u16 \<Rightarrow> (vring \<times> nat) option" where
  "add_buf_loop v desc ii i out in' =
     (if int i < uint in' + uint out then
        (case ii of
           [] \<Rightarrow> None
         | node # ii' \<Rightarrow> do {
             (v', desc') \<leftarrow> add_buf_body v desc node i in';
             add_buf_loop v' desc' ii' (i + 1) out in'
           })
      else Some (v, desc))"
  by pat_completeness auto
termination
  by (relation "measure (\<lambda>(v, desc, ii, i, out, in'). nat (uint in' + uint out) - i)") auto

text \<open>
  \<^verbatim>\<open>add_buf\<close> itself: the first descriptor is \<^verbatim>\<open>_desc[_avail->_ring[_avail->_idx]]\<close>,
  after the loop \<^verbatim>\<open>desc->_flags &= ~VRING_DESC_F_NEXT\<close> is applied to the descriptor
  the loop stopped at, and the function returns \<^verbatim>\<open>true\<close>. The cookie is not used.
\<close>

definition add_buf ::
  "vring \<Rightarrow> sg_node list \<Rightarrow> u16 \<Rightarrow> u16 \<Rightarrow> u64 \<Rightarrow> (bool \<times> vring) option" where
  "add_buf v sg out in' cookie = do {
     idx \<leftarrow> load_u16 v (avail_idx v);
     r \<leftarrow> load_u16 v (avail_ring v (unat idx));
     (v', desc) \<leftarrow> add_buf_loop v (desc_at v r) sg 0 out in';
     fl \<leftarrow> load_u16 v' (desc_flags desc);
     v'' \<leftarrow> store_u16 v' (desc_flags desc) (word_of_int (uint fl AND NOT VRING_DESC_F_NEXT));
     Some (True, v'')
   }"

subsection \<open>Reclamation: \<^verbatim>\<open>vring::get_buf\<close>\<close>

text \<open>
  \<^verbatim>\<open>void* vring::get_buf(int* len) { return nullptr; }\<close>
  The result is the returned pointer, the value of \<^verbatim>\<open>*len\<close> after the call and the
  ring after the call.
\<close>

definition get_buf :: "vring \<Rightarrow> int \<Rightarrow> u64 \<times> int \<times> vring" where
  "get_buf v len = (0, len, v)"

subsection \<open>Runs of calls, and the device's side\<close>

text \<open>
  A run is a sequence of \<^verbatim>\<open>add_buf\<close> and \<^verbatim>\<open>get_buf\<close> calls on one ring. Beside the
  ring, \<open>run\<close> keeps what each call returned and, as bookkeeping that is not part of the
  code, the chains that are outstanding: a chain of \<open>out + in\<close> descriptors is entered
  under its cookie when \<^verbatim>\<open>add_buf\<close> returns \<^verbatim>\<open>true\<close>, and taken out when
  \<^verbatim>\<open>get_buf\<close> hands its cookie back. What the bookkeeping says is compared with the
  ring itself in the properties below.
\<close>

datatype call = Submit "sg_node list" u16 u16 u64 | Reclaim int

datatype outcome = Submitted bool | Reclaimed u64 int

fun drop_chain :: "u64 \<Rightarrow> (u64 \<times> nat) list \<Rightarrow> (u64 \<times> nat) list" where
  "drop_chain c [] = []"
| "drop_chain c ((c', n) # cs) = (if c' = c then cs else (c', n) # drop_chain c cs)"

fun run ::
  "vring \<Rightarrow> (u64 \<times> nat) list \<Rightarrow> call list \<Rightarrow> (vring \<times> (u64 \<times> nat) list \<times> outcome list) option" where
  "run v outs [] = Some (v, outs, [])"
| "run v outs (Submit sg out in' cookie # cs) =
     (case add_buf v sg out in' cookie of
        None \<Rightarrow> None
      | Some (ok, v') \<Rightarrow>
          (case run v' (if ok then outs @ [(cookie, unat out + unat in')] else outs) cs of
             None \<Rightarrow> None
           | Some (v'', outs'', rs) \<Rightarrow> Some (v'', outs'', Submitted ok # rs)))"
| "run v outs (Reclaim len # cs) =
     (case get_buf v len of
        (c, len', v') \<Rightarrow>
          (case run v' (if c = 0 then outs else drop_chain c outs) cs of
             None \<Rightarrow> None
           | Some (v'', outs'', rs) \<Rightarrow> Some (v'', outs'', Reclaimed c len' # rs)))"

definition chain_total :: "(u64 \<times> nat) list \<Rightarrow> nat" where
  "chain_total outs = sum_list (map snd outs)"

fun submitted :: "call list \<Rightarrow> (u64 \<times> nat) list" where
  "submitted [] = []"
| "submitted (Submit sg out in' cookie # cs) = (cookie, unat out + unat in') # submitted cs"
| "submitted (Reclaim len # cs) = submitted cs"

text \<open>
  What a run passes to \<^verbatim>\<open>add_buf\<close>: \<open>segments\<close> lists, in the order of the calls, the
  first \<open>out + in\<close> nodes of each submitted list, the nodes the loop of \<^verbatim>\<open>add_buf\<close>
  visits; \<open>enough_nodes\<close> says that a submitted list has that many nodes, so that the
  loop does not run past its end; \<open>answer\<close> is the outcome of a call when \<^verbatim>\<open>add_buf\<close>
  returns \<^verbatim>\<open>true\<close> and \<^verbatim>\<open>get_buf\<close> returns the null pointer and leaves \<^verbatim>\<open>*len\<close>.
\<close>

fun segments :: "call list \<Rightarrow> sg_node list" where
  "segments [] = []"
| "segments (Submit sg out in' cookie # cs) = take (unat out + unat in') sg @ segments cs"
| "segments (Reclaim len # cs) = segments cs"

fun enough_nodes :: "call \<Rightarrow> bool" where
  "enough_nodes (Submit sg out in' cookie) \<longleftrightarrow> unat out + unat in' \<le> length sg"
| "enough_nodes (Reclaim len) \<longleftrightarrow> True"

fun answer :: "call \<Rightarrow> outcome" where
  "answer (Submit sg out in' cookie) = Submitted True"
| "answer (Reclaim len) = Reclaimed 0 len"

text \<open>
  The device's side of the end-to-end scenario: it writes the element \<open>(id, len)\<close> into
  the used ring at \<open>used.idx mod num\<close> and increments \<open>used.idx\<close>. This is the far side
  of the ring, not code of the driver.
\<close>

definition device_complete :: "vring \<Rightarrow> u32 \<Rightarrow> u32 \<Rightarrow> vring option" where
  "device_complete v ident len = do {
     ui \<leftarrow> load_u16 v (used_idx v);
     v1 \<leftarrow> store_u32 v (used_ring v (unat ui mod unat (v_num v))) ident;
     v2 \<leftarrow> store_u32 v1 (used_ring v (unat ui mod unat (v_num v)) + 4) len;
     store_u16 v2 (used_idx v2) (ui + 1)
   }"

text \<open>
  \<open>fresh_ring v k\<close>: the ring has the layout the constructor gives it, every slot of
  the available ring still holds the next-pointer the constructor wrote (slot \<open>i\<close> holds
  \<open>i + 1\<close>), and \<open>avail.idx\<close> is \<open>k\<close>.
\<close>

definition fresh_ring :: "vring \<Rightarrow> nat \<Rightarrow> bool" where
  "fresh_ring v k \<longleftrightarrow>
     v_desc v = 0 \<and> v_avail v = 16 * unat (v_num v) \<and>
     avail_ring v (unat (v_num v)) \<le> heap_size v \<and>
     load_u16 v (avail_idx v) = Some (of_nat k) \<and>
     (\<forall>i < unat (v_num v). load_u16 v (avail_ring v i) = Some (of_nat (i + 1)))"

text \<open>The scenarios of the spec's section 8, as runs from a constructed ring.\<close>

definition seg_a :: sg_node where "seg_a = \<lparr>sg_paddr = 0x1000, sg_len = 0x10\<rparr>"
definition seg_b :: sg_node where "seg_b = \<lparr>sg_paddr = 0x2000, sg_len = 0x20\<rparr>"

definition queue4 :: "vring option" where
  "queue4 = vring_ctor 0x100000 0 4 0"

definition queue4_submitted :: "(bool \<times> vring) option" where
  "queue4_submitted = queue4 \<bind> (\<lambda>v. add_buf v [seg_a, seg_b] 1 1 0xA)"

definition queue4_completed :: "vring option" where
  "queue4_completed = queue4_submitted \<bind> (\<lambda>(ok, v). device_complete v 1 37)"

definition queue2 :: "vring option" where
  "queue2 = vring_ctor 0x100000 0 2 0"

definition queue2_three_submits :: "(vring \<times> (u64 \<times> nat) list \<times> outcome list) option" where
  "queue2_three_submits =
     queue2 \<bind> (\<lambda>v. run v [] [Submit [seg_a] 1 0 0xA, Submit [seg_a] 1 0 0xB, Submit [seg_a] 1 0 0xC])"

section \<open>Properties\<close>

subsection \<open>Unfolding the loops\<close>

lemma init_ring_step:
  "i < unat num \<Longrightarrow>
   init_ring v num i =
     store_u16 v (avail_ring v i) (of_nat (i + 1)) \<bind> (\<lambda>v'. init_ring v' num (i + 1))"
  by (subst init_ring.simps) simp

lemma init_ring_done: "\<not> i < unat num \<Longrightarrow> init_ring v num i = Some v"
  by (subst init_ring.simps) simp

lemma add_buf_loop_done:
  "\<not> int i < uint in' + uint out \<Longrightarrow> add_buf_loop v desc ii i out in' = Some (v, desc)"
  by (subst add_buf_loop.simps) simp

lemma add_buf_loop_end:
  "int i < uint in' + uint out \<Longrightarrow> add_buf_loop v desc [] i out in' = None"
  by (subst add_buf_loop.simps) simp

lemma add_buf_loop_step:
  "int i < uint in' + uint out \<Longrightarrow>
   add_buf_loop v desc (node # ii') i out in' =
     add_buf_body v desc node i in' \<bind> (\<lambda>(v', desc'). add_buf_loop v' desc' ii' (i + 1) out in')"
  by (subst add_buf_loop.simps) simp

declare init_ring.simps [simp del] add_buf_loop.simps [simp del]

text \<open>The equations that evaluate the model on a concrete ring.\<close>

lemmas eval_simps =
  init_ring_step init_ring_done add_buf_loop_done add_buf_loop_end add_buf_loop_step
  vring_ctor_def VIRTIO_ALIGN_def VIRTIO_PCI_VRING_ALIGN_def get_size_def used_offset_def
  sizeof_vring_desc_def sizeof_u16_def sizeof_vring_used_elem_def
  store_def store_u16_def store_u32_def store_u64_def load_u16_def load_u32_def load_u64_def
  desc_at_def desc_paddr_def desc_len_def desc_flags_def desc_next_def
  avail_idx_def avail_ring_def used_idx_def used_ring_def
  add_buf_def add_buf_body_def get_buf_def flags_expr_def
  VRING_DESC_F_NEXT_def VRING_DESC_F_WRITE_def
  device_complete_def seg_a_def seg_b_def Let_def

subsection \<open>Notification hold-off\<close>

text \<open>
  C1. For all 16-bit values \<open>event_idx\<close>, \<open>new_idx\<close> and \<open>old\<close>, \<open>need_event\<close> returns
  a nonzero value exactly when
  \<open>(new_idx - event_idx - 1) mod 2^16 < (new_idx - old) mod 2^16\<close>, the differences
  taken over the integers; and at \<open>event_idx = 0xFFFE\<close>, \<open>old = 0xFFFE\<close>,
  \<open>new_idx = 0x0001\<close>, where the index has wrapped, it returns 1: the left side is
  2 and the right side is 3.
\<close>

theorem need_event_modular:
  "(\<forall>event_idx new_idx old.
      (need_event event_idx new_idx old \<noteq> 0) =
      ((uint new_idx - uint event_idx - 1) mod 2 ^ 16 < (uint new_idx - uint old) mod 2 ^ 16))
   \<and> need_event 0xFFFE 0x0001 0xFFFE = 1
   \<and> (uint (0x0001 :: u16) - uint (0xFFFE :: u16) - 1) mod 2 ^ 16 = 2
   \<and> (uint (0x0001 :: u16) - uint (0xFFFE :: u16)) mod 2 ^ 16 = 3"
  by (simp add: need_event_def word_less_def uint_word_ariths mod_simps)

subsection \<open>Rounding up to a power of two\<close>

lemma round_up_bounds:
  assumes "0 < a"
  shows "x \<le> round_up x a" and "round_up x a < x + a"
proof -
  have "(x + a - 1) div a * a + (x + a - 1) mod a = x + a - 1" by simp
  moreover have "(x + a - 1) mod a < a" using assms by simp
  ultimately show "x \<le> round_up x a" and "round_up x a < x + a"
    using assms unfolding round_up_def by linarith+
qed

lemma round_up_dvd: "a dvd round_up x a"
  by (simp add: round_up_def)

lemma round_up_mono: "x \<le> y \<Longrightarrow> round_up x a \<le> round_up y a"
  unfolding round_up_def by (intro mult_le_mono1 div_le_mono) simp

lemma and_not_mask_push_drop:
  "(x :: 'a::len word) AND NOT (mask k) = push_bit k (drop_bit k x)"
  by (rule bit_eqI) (auto simp: bit_simps)

lemma unat_and_not_mask:
  "unat ((x :: 'a::len word) AND NOT (mask k)) = unat x div 2 ^ k * 2 ^ k"
proof -
  have le: "unat x div 2 ^ k * 2 ^ k \<le> unat x" by simp
  have "unat (x AND NOT (mask k)) = take_bit LENGTH('a) (push_bit k (drop_bit k (unat x)))"
    by (simp add: and_not_mask_push_drop unsigned_push_bit_eq unat_drop_bit_eq)
  also have "\<dots> = (unat x div 2 ^ k * 2 ^ k) mod 2 ^ LENGTH('a)"
    by (simp add: take_bit_eq_mod push_bit_eq_mult drop_bit_eq_div)
  also have "\<dots> = unat x div 2 ^ k * 2 ^ k"
    using le unsigned_less [of x, where 'a = nat]
    by (intro mod_less) (rule le_less_trans)
  finally show ?thesis .
qed

lemma of_nat_plus_mask:
  "(of_nat m :: 'a::len word) + 2 ^ k - 1 = of_nat (m + 2 ^ k - 1)"
proof -
  have e: "m + 2 ^ k - 1 = m + (2 ^ k - 1)" by simp
  have p: "(of_nat (2 ^ k - 1) :: 'a word) = 2 ^ k - 1"
    by (subst of_nat_diff) simp_all
  have "(of_nat (m + 2 ^ k - 1) :: 'a word) = of_nat (m + (2 ^ k - 1))"
    by (simp only: e)
  also have "\<dots> = of_nat m + of_nat (2 ^ k - 1)"
    by (rule of_nat_add)
  also have "\<dots> = of_nat m + 2 ^ k - 1"
    by (simp only: p add_diff_eq)
  finally show ?thesis by (rule sym)
qed

lemma unat_align_up:
  assumes "m + 2 ^ k - 1 < 2 ^ LENGTH('a)"
  shows "unat (((of_nat m :: 'a::len word) + 2 ^ k - 1) AND NOT (2 ^ k - 1)) = round_up m (2 ^ k)"
proof -
  have "unat ((of_nat m :: 'a word) + 2 ^ k - 1) = m + 2 ^ k - 1"
    unfolding of_nat_plus_mask using assms by (simp only: unat_of_nat) simp
  then show ?thesis
    by (simp add: mask_eq_exp_minus_1 [symmetric] unat_and_not_mask round_up_def)
qed

lemma unat_VIRTIO_ALIGN:
  assumes "unat x + 4095 < 2 ^ 32"
  shows "unat (VIRTIO_ALIGN x) = round_up (unat x) 4096"
proof -
  have "VIRTIO_ALIGN x = ((of_nat (unat x) :: u32) + 2 ^ 12 - 1) AND NOT (2 ^ 12 - 1)"
    by (simp add: VIRTIO_ALIGN_def VIRTIO_PCI_VRING_ALIGN_def add.commute)
  moreover have "unat x + 2 ^ 12 - 1 < 2 ^ LENGTH(32)" using assms by simp
  ultimately have "unat (VIRTIO_ALIGN x) = round_up (unat x) (2 ^ 12)"
    by (simp only: unat_align_up)
  then show ?thesis by simp
qed


subsection \<open>The value of \<open>get_size\<close>\<close>

lemma ucast_u32_u64: "(ucast (w :: u32) :: u64) = of_nat (unat w)"
  by simp

lemma unat_ucast_u32_u64: "unat (ucast (w :: u32) :: u64) = unat w"
proof -
  have "unat w < 2 ^ 32" using unsigned_less [of w, where 'a = nat] by simp
  then have "unat w < 2 ^ 64" by simp
  then show ?thesis
    by (simp only: ucast_u32_u64 unat_of_nat) simp
qed

lemma unat_pow2_u64:
  assumes "k < 64"
  shows "unat (2 ^ k :: u64) = 2 ^ k"
proof -
  have "(2::nat) ^ k < 2 ^ 64" using assms by (intro power_strict_increasing) simp_all
  moreover have "(2 ^ k :: u64) = of_nat (2 ^ k)" by simp
  ultimately show ?thesis by (simp only: unat_of_nat) simp
qed

lemma unat_used_offset:
  assumes "k < 64"
  shows "unat (used_offset num (2 ^ k)) =
         round_up (16 * unat num + 2 * ((3 + unat num) mod 2 ^ 32)) (2 ^ k)"
proof -
  let ?m = "16 * unat num + 2 * ((3 + unat num) mod 2 ^ 32)"
  have n: "unat num < 2 ^ 32" using unsigned_less [of num, where 'a = nat] by simp
  have k: "(2::nat) ^ k \<le> 2 ^ 63" using assms by (intro power_increasing) simp_all
  have a: "unat (3 + num) = (3 + unat num) mod 2 ^ 32"
    by (simp add: unat_word_ariths)
  have "sizeof_vring_desc * ucast num + sizeof_u16 * ucast (3 + num)
        = 16 * of_nat (unat num) + 2 * (of_nat (unat (3 + num)) :: u64)"
    by (simp only: sizeof_vring_desc_def sizeof_u16_def ucast_u32_u64)
  also have "\<dots> = (of_nat ?m :: u64)"
    by (simp only: a of_nat_add of_nat_mult of_nat_numeral)
  finally have e: "sizeof_vring_desc * ucast num + sizeof_u16 * ucast (3 + num) = (of_nat ?m :: u64)" .
  have "?m + 2 ^ k - 1 < 2 ^ LENGTH(64)"
    using n k by simp
  then show ?thesis
    unfolding used_offset_def e by (rule unat_align_up)
qed

lemma unat_get_size:
  assumes "k < 64"
  shows "unat (get_size num (2 ^ k)) =
         (round_up (16 * unat num + 2 * ((3 + unat num) mod 2 ^ 32)) (2 ^ k)
            + 6 + 8 * unat num) mod 2 ^ 32"
proof -
  have d: "(2::nat) ^ 32 dvd 2 ^ 64" by (intro le_imp_power_dvd) simp
  have "unat (get_size num (2 ^ k)) =
        unat (used_offset num (2 ^ k) + sizeof_u16 * 3 + sizeof_vring_used_elem * ucast num) mod 2 ^ 32"
    unfolding get_size_def by (simp add: unsigned_ucast_eq take_bit_eq_mod)
  also have "\<dots> = (unat (used_offset num (2 ^ k)) + 6 + 8 * unat num) mod 2 ^ 32"
    using d by (simp add: unat_word_ariths sizeof_u16_def sizeof_vring_used_elem_def
        mod_mod_cancel mod_simps unat_ucast_u32_u64)
  finally show ?thesis by (simp only: unat_used_offset [OF assms])
qed

lemma get_size_exact:
  assumes "k < 64" and "get_size_spec (unat num) (2 ^ k) < 2 ^ 32"
  shows "unat (get_size num (2 ^ k)) = get_size_spec (unat num) (2 ^ k)"
proof -
  have "16 * unat num \<le> get_size_spec (unat num) (2 ^ k)"
    unfolding get_size_spec_def desc_bytes_def avail_bytes_def
    using round_up_bounds(1) [of "2 ^ k" "16 * unat num + 2 * (3 + unat num)"] by simp
  then have "3 + unat num < 2 ^ 32" using assms(2) by simp
  then have "(3 + unat num) mod 2 ^ 32 = 3 + unat num" by simp
  then have "unat (get_size num (2 ^ k)) = get_size_spec (unat num) (2 ^ k) mod 2 ^ 32"
    by (simp only: unat_get_size [OF assms(1)] get_size_spec_def desc_bytes_def
        avail_bytes_def used_bytes_def) (simp add: add.assoc)
  then show ?thesis using assms(2) by simp
qed

lemma get_size_small_align:
  assumes "k < 32" and "unat num < 2 ^ 16"
  shows "unat (get_size num (2 ^ k)) = get_size_spec (unat num) (2 ^ k)"
    and "get_size_spec (unat num) (2 ^ k) < 2 ^ 32"
proof -
  have k: "(2::nat) ^ k \<le> 2 ^ 31" using assms(1) by (intro power_increasing) simp_all
  have "round_up (16 * unat num + 2 * (3 + unat num)) (2 ^ k)
          < 16 * unat num + 2 * (3 + unat num) + 2 ^ k"
    by (rule round_up_bounds(2)) simp
  then show b: "get_size_spec (unat num) (2 ^ k) < 2 ^ 32"
    unfolding get_size_spec_def desc_bytes_def avail_bytes_def used_bytes_def
    using assms(2) k by simp
  show "unat (get_size num (2 ^ k)) = get_size_spec (unat num) (2 ^ k)"
    using assms(1) b by (intro get_size_exact) simp_all
qed

lemma get_size_big_align:
  assumes "32 \<le> k" and "k < 64" and "unat num < 2 ^ 16"
  shows "unat (get_size num (2 ^ k)) = 6 + 8 * unat num"
proof -
  have "(2::nat) ^ 32 dvd 2 ^ k" using assms(1) by (rule le_imp_power_dvd)
  then have "2 ^ 32 dvd round_up (16 * unat num + 2 * ((3 + unat num) mod 2 ^ 32)) (2 ^ k)"
    using round_up_dvd dvd_trans by blast
  then obtain q where q: "round_up (16 * unat num + 2 * ((3 + unat num) mod 2 ^ 32)) (2 ^ k) = 2 ^ 32 * q"
    by (elim dvdE)
  have "unat (get_size num (2 ^ k)) = (2 ^ 32 * q + (6 + 8 * unat num)) mod 2 ^ 32"
    by (simp only: unat_get_size [OF assms(2)] q add.assoc)
  also have "\<dots> = (6 + 8 * unat num) mod 2 ^ 32"
    by (simp only: mod_mult_self4)
  also have "\<dots> = 6 + 8 * unat num" using assms(3) by simp
  finally show ?thesis .
qed

lemma get_size_spec_mono: "n1 \<le> n2 \<Longrightarrow> get_size_spec n1 a \<le> get_size_spec n2 a"
  unfolding get_size_spec_def desc_bytes_def avail_bytes_def used_bytes_def
  by (intro add_mono round_up_mono) simp_all

lemma unat_ucast_u16_u32:
  fixes n :: u16
  shows "unat (ucast n :: u32) = unat n" and "unat (ucast n :: u32) < 2 ^ 16"
  using unsigned_less [of n, where 'a = nat]
  by (simp_all add: unsigned_ucast_eq take_bit_nat_eq_self)

subsection \<open>The layout formula\<close>

text \<open>
  C5, as amended. For every queue size \<open>num\<close> and every power-of-two alignment
  \<open>align\<close>, \<open>get_size num align\<close> equals
  \<open>round_up (desc_bytes + avail_bytes) align + used_bytes\<close> whenever that value is below
  \<open>2^32\<close>; \<open>desc_bytes\<close> is \<open>num\<close> descriptors of 16 bytes, \<open>avail_bytes\<close> is
  \<open>3 + num\<close> 16-bit fields and \<open>used_bytes\<close> is three 16-bit fields and \<open>num\<close> used
  elements of 8 bytes. \<open>round_up x align\<close> is the least multiple of \<open>align\<close> that is
  not below \<open>x\<close>: a multiple of \<open>align\<close>, at least \<open>x\<close> and less than \<open>x + align\<close>.
\<close>

theorem get_size_formula:
  assumes "align = 2 ^ k" and "k < 64"
    and "get_size_spec (unat num) (unat align) < 2 ^ 32"
  shows "unat (get_size num align) = get_size_spec (unat num) (unat align)
       \<and> unat align dvd round_up (desc_bytes (unat num) + avail_bytes (unat num)) (unat align)
       \<and> desc_bytes (unat num) + avail_bytes (unat num)
           \<le> round_up (desc_bytes (unat num) + avail_bytes (unat num)) (unat align)
       \<and> round_up (desc_bytes (unat num) + avail_bytes (unat num)) (unat align)
           < desc_bytes (unat num) + avail_bytes (unat num) + unat align"
proof -
  have ua: "unat align = 2 ^ k" using assms(1,2) by (simp only: unat_pow2_u64)
  have "unat (get_size num align) = get_size_spec (unat num) (unat align)"
    using assms(2,3) unfolding ua unfolding assms(1) by (rule get_size_exact)
  moreover have "unat align dvd round_up (desc_bytes (unat num) + avail_bytes (unat num)) (unat align)"
    by (rule round_up_dvd)
  moreover have "desc_bytes (unat num) + avail_bytes (unat num)
           \<le> round_up (desc_bytes (unat num) + avail_bytes (unat num)) (unat align)"
    unfolding ua by (rule round_up_bounds(1)) simp
  moreover have "round_up (desc_bytes (unat num) + avail_bytes (unat num)) (unat align)
           < desc_bytes (unat num) + avail_bytes (unat num) + unat align"
    unfolding ua by (rule round_up_bounds(2)) simp
  ultimately show ?thesis by blast
qed

theorem get_size_formula_witness:
  "(4096 :: u64) = 2 ^ 12 \<and> (12 :: nat) < 64
   \<and> get_size_spec (unat (4 :: u32)) (unat (4096 :: u64)) < 2 ^ 32
   \<and> unat (get_size 4 4096) = get_size_spec (unat (4 :: u32)) (unat (4096 :: u64))
   \<and> get_size_spec (unat (4 :: u32)) (unat (4096 :: u64)) = 4134"
proof -
  have s: "get_size_spec (unat (4 :: u32)) (unat (4096 :: u64)) = 4134"
    by (simp add: get_size_spec_def round_up_def desc_bytes_def avail_bytes_def used_bytes_def)
  have a: "(4096 :: u64) = 2 ^ 12" by simp
  have b: "get_size_spec (unat (4 :: u32)) (unat (4096 :: u64)) < 2 ^ 32"
    by (simp only: s) simp
  have k: "(12 :: nat) < 64" by simp
  have r: "unat (get_size 4 4096) = get_size_spec (unat (4 :: u32)) (unat (4096 :: u64))"
    using get_size_formula [OF a k b] by (rule conjunct1)
  show ?thesis using a k b r s by blast
qed

text \<open>
  The claim as stated, for every \<open>num\<close> and every power-of-two \<open>align\<close>, fails where
  the value does not fit the 32-bit return type: for \<open>num = 1\<close> and \<open>align = 2^32\<close> the
  function returns 14 where the formula gives \<open>2^32 + 14\<close>, and for \<open>num = 2^28\<close> and
  \<open>align = 4096\<close> it returns 2684358662 where the formula gives 6979325958.
\<close>

theorem get_size_formula_counterexample:
  "unat (get_size 1 (2 ^ 32)) = 14
   \<and> get_size_spec (unat (1 :: u32)) (unat (2 ^ 32 :: u64)) = 4294967310
   \<and> unat (get_size (2 ^ 28) 4096) = 2684358662
   \<and> get_size_spec (unat (2 ^ 28 :: u32)) (unat (4096 :: u64)) = 6979325958"
  by (simp add: get_size_def used_offset_def sizeof_vring_desc_def sizeof_u16_def
      sizeof_vring_used_elem_def get_size_spec_def round_up_def desc_bytes_def avail_bytes_def
      used_bytes_def)

text \<open>
  C9, as amended. For every power-of-two alignment and all queue sizes
  \<open>num1 \<le> num2\<close> that fit 16 bits, as the constructor's \<^verbatim>\<open>u16 num\<close> does,
  \<open>get_size num1 align \<le> get_size num2 align\<close>; the offset of the used ring, the
  rounded-up prefix, is a multiple of \<open>align\<close> and is not below the end of the
  available ring, which starts where the descriptor table ends, so the three regions do
  not overlap.
\<close>

theorem get_size_monotone:
  fixes num1 num2 :: u16
  assumes "align = 2 ^ k" and "k < 64" and "num1 \<le> num2"
  shows "get_size (ucast num1) align \<le> get_size (ucast num2) align
       \<and> unat align dvd unat (used_offset (ucast num2) align)
       \<and> desc_bytes (unat num2) + avail_bytes (unat num2)
            \<le> unat (used_offset (ucast num2) align)"
proof -
  note u = unat_ucast_u16_u32(1) and b = unat_ucast_u16_u32(2)
  have le: "unat num1 \<le> unat num2" using assms(3) by (simp add: word_le_nat_alt)
  have ua: "unat align = 2 ^ k" using assms(1,2) by (simp only: unat_pow2_u64)
  have mono: "get_size (ucast num1) align \<le> get_size (ucast num2) align"
  proof (cases "k < 32")
    case True
    then show ?thesis
      unfolding word_le_nat_alt assms(1)
      by (simp only: get_size_small_align(1) [OF True b] u) (rule get_size_spec_mono [OF le])
  next
    case False
    then have "32 \<le> k" by simp
    then show ?thesis
      unfolding word_le_nat_alt assms(1)
      using le by (simp only: get_size_big_align [OF _ assms(2) b] u)
  qed
  have m: "(3 + unat num2) mod 2 ^ 32 = 3 + unat num2"
    using b [of num2] u [of num2] by simp
  have uo: "unat (used_offset (ucast num2) align)
      = round_up (desc_bytes (unat num2) + avail_bytes (unat num2)) (2 ^ k)"
    unfolding assms(1)
    by (simp only: unat_used_offset [OF assms(2)] u m desc_bytes_def avail_bytes_def)
  have "unat align dvd unat (used_offset (ucast num2) align)"
    unfolding uo ua by (rule round_up_dvd)
  moreover have "desc_bytes (unat num2) + avail_bytes (unat num2)
      \<le> unat (used_offset (ucast num2) align)"
    unfolding uo by (rule round_up_bounds(1)) simp
  ultimately show ?thesis using mono by blast
qed

theorem get_size_monotone_witness:
  "(4096 :: u64) = 2 ^ 12 \<and> (12 :: nat) < 64 \<and> (4 :: u16) \<le> 8
   \<and> get_size (ucast (4 :: u16)) 4096 \<le> get_size (ucast (8 :: u16)) 4096
   \<and> unat (4096 :: u64) dvd unat (used_offset (ucast (8 :: u16)) 4096)
   \<and> desc_bytes (unat (8 :: u16)) + avail_bytes (unat (8 :: u16))
        \<le> unat (used_offset (ucast (8 :: u16)) 4096)"
proof -
  have a: "(4096 :: u64) = 2 ^ 12" by simp
  have c: "(4 :: u16) \<le> 8" by simp
  have k: "(12 :: nat) < 64" by simp
  show ?thesis using get_size_monotone [OF a k c] a k c by blast
qed

text \<open>
  The claim as stated, for all power-of-two queue sizes, fails beyond 16 bits, where the
  size no longer fits the return type: with \<open>align = 4096\<close>, \<open>get_size\<close> is 3489665030
  at \<open>2^27\<close> and 2684358662 at \<open>2^28\<close>.
\<close>

theorem get_size_monotone_counterexample:
  "get_size (2 ^ 27) 4096 = 3489665030 \<and> get_size (2 ^ 28) 4096 = 2684358662
   \<and> \<not> get_size (2 ^ 27) 4096 \<le> get_size (2 ^ 28) 4096"
  by (simp add: get_size_def used_offset_def sizeof_vring_desc_def sizeof_u16_def
      sizeof_vring_used_elem_def)

subsection \<open>Loads and stores\<close>

lemma poke_apply:
  "poke m a bs x = (if a \<le> x \<and> x < a + length bs then bs ! (x - a) else m x)"
proof (induction bs arbitrary: m a)
  case Nil
  then show ?case by auto
next
  case (Cons b bs)
  show ?case
    by (simp only: poke.simps Cons.IH) (auto simp: nth_Cons')
qed

lemma u16_of_bytes:
  "(ucast (ucast x :: u8) :: u16) OR push_bit 8 (ucast (ucast (drop_bit 8 x :: u16) :: u8)) = x"
  by (rule bit_eqI) (auto simp: bit_simps)

lemma store_Some:
  "store v a bs = Some v' \<longleftrightarrow> a + length bs \<le> heap_size v \<and> v' = v\<lparr>heap := poke (heap v) a bs\<rparr>"
  by (auto simp: store_def)

lemma load_u16_heap_update:
  assumes "h a = heap v a" and "h (a + 1) = heap v (a + 1)"
  shows "load_u16 (v\<lparr>heap := h\<rparr>) a = load_u16 v a"
  using assms by (simp add: load_u16_def)

lemma load_u16_store_u16:
  assumes "a + 2 \<le> heap_size v"
  shows "load_u16 (v\<lparr>heap := poke (heap v) a [ucast x, ucast (drop_bit 8 x)]\<rparr>) a = Some x"
  using assms by (simp add: load_u16_def u16_of_bytes)

lemma u32_of_bytes:
  "(ucast (ucast x :: u8) :: u32) OR push_bit 8 (ucast (ucast (drop_bit 8 x :: u32) :: u8))
     OR push_bit 16 (ucast (ucast (drop_bit 16 x :: u32) :: u8))
     OR push_bit 24 (ucast (ucast (drop_bit 24 x :: u32) :: u8)) = x"
proof (rule bit_eqI)
  fix n :: nat
  consider "n < 8" | "8 \<le> n" "n < 16" | "16 \<le> n" "n < 24" | "24 \<le> n" "n < 32" | "32 \<le> n"
    by linarith
  then show "bit ((ucast (ucast x :: u8) :: u32) OR push_bit 8 (ucast (ucast (drop_bit 8 x :: u32) :: u8))
     OR push_bit 16 (ucast (ucast (drop_bit 16 x :: u32) :: u8))
     OR push_bit 24 (ucast (ucast (drop_bit 24 x :: u32) :: u8))) n = bit x n"
    by cases (auto simp add: bit_simps dest: bit_imp_le_length)
qed

lemma u64_of_bytes:
  "(ucast (ucast x :: u8) :: u64) OR push_bit 8 (ucast (ucast (drop_bit 8 x :: u64) :: u8))
     OR push_bit 16 (ucast (ucast (drop_bit 16 x :: u64) :: u8))
     OR push_bit 24 (ucast (ucast (drop_bit 24 x :: u64) :: u8))
     OR push_bit 32 (ucast (ucast (drop_bit 32 x :: u64) :: u8))
     OR push_bit 40 (ucast (ucast (drop_bit 40 x :: u64) :: u8))
     OR push_bit 48 (ucast (ucast (drop_bit 48 x :: u64) :: u8))
     OR push_bit 56 (ucast (ucast (drop_bit 56 x :: u64) :: u8)) = x"
proof (rule bit_eqI)
  fix n :: nat
  consider "n < 8" | "8 \<le> n" "n < 16" | "16 \<le> n" "n < 24" | "24 \<le> n" "n < 32"
    | "32 \<le> n" "n < 40" | "40 \<le> n" "n < 48" | "48 \<le> n" "n < 56" | "56 \<le> n" "n < 64" | "64 \<le> n"
    by linarith
  then show "bit ((ucast (ucast x :: u8) :: u64) OR push_bit 8 (ucast (ucast (drop_bit 8 x :: u64) :: u8))
     OR push_bit 16 (ucast (ucast (drop_bit 16 x :: u64) :: u8))
     OR push_bit 24 (ucast (ucast (drop_bit 24 x :: u64) :: u8))
     OR push_bit 32 (ucast (ucast (drop_bit 32 x :: u64) :: u8))
     OR push_bit 40 (ucast (ucast (drop_bit 40 x :: u64) :: u8))
     OR push_bit 48 (ucast (ucast (drop_bit 48 x :: u64) :: u8))
     OR push_bit 56 (ucast (ucast (drop_bit 56 x :: u64) :: u8))) n = bit x n"
    by cases (auto simp add: bit_simps dest: bit_imp_le_length)
qed

lemma load_u64_frame:
  assumes "heap_size v' = heap_size v" and "\<And>b. a \<le> b \<Longrightarrow> b < a + 8 \<Longrightarrow> heap v' b = heap v b"
  shows "load_u64 v' a = load_u64 v a"
proof -
  have "heap v' (a + j) = heap v (a + j)" if "j < 8" for j
    using that by (intro assms(2)) simp_all
  from this [of 0] this [of 1] this [of 2] this [of 3] this [of 4] this [of 5] this [of 6] this [of 7]
  show ?thesis by (simp add: load_u64_def assms(1))
qed

lemma load_u32_frame:
  assumes "heap_size v' = heap_size v" and "\<And>b. a \<le> b \<Longrightarrow> b < a + 4 \<Longrightarrow> heap v' b = heap v b"
  shows "load_u32 v' a = load_u32 v a"
proof -
  have "heap v' (a + j) = heap v (a + j)" if "j < 4" for j
    using that by (intro assms(2)) simp_all
  from this [of 0] this [of 1] this [of 2] this [of 3]
  show ?thesis by (simp add: load_u32_def assms(1))
qed

lemma load_u64_store_u64:
  assumes "a + 8 \<le> heap_size v"
  shows "load_u64 (v\<lparr>heap := poke (heap v) a [ucast x, ucast (drop_bit 8 x), ucast (drop_bit 16 x),
           ucast (drop_bit 24 x), ucast (drop_bit 32 x), ucast (drop_bit 40 x), ucast (drop_bit 48 x),
           ucast (drop_bit 56 x)]\<rparr>) a = Some x"
  using assms by (simp add: load_u64_def u64_of_bytes)

lemma load_u32_store_u32:
  assumes "a + 4 \<le> heap_size v"
  shows "load_u32 (v\<lparr>heap := poke (heap v) a [ucast x, ucast (drop_bit 8 x), ucast (drop_bit 16 x),
           ucast (drop_bit 24 x)]\<rparr>) a = Some x"
  using assms by (simp add: load_u32_def u32_of_bytes)




subsection \<open>The constructor's loop\<close>

lemma init_ring_result:
  assumes "avail_ring v (unat num) \<le> heap_size v" and "i \<le> unat num"
  shows "\<exists>h. init_ring v num i = Some (v\<lparr>heap := h\<rparr>)
           \<and> (\<forall>j. i \<le> j \<and> j < unat num \<longrightarrow>
                  load_u16 (v\<lparr>heap := h\<rparr>) (avail_ring v j) = Some (of_nat (j + 1)))
           \<and> (\<forall>x. x < avail_ring v i \<or> avail_ring v (unat num) \<le> x \<longrightarrow> h x = heap v x)"
  using assms
proof (induction v num i rule: init_ring.induct)
  case (1 v num i)
  show ?case
  proof (cases "i < unat num")
    case False
    then have "init_ring v num i = Some (v\<lparr>heap := heap v\<rparr>)"
      by (subst init_ring.simps) simp
    with False show ?thesis by fastforce
  next
    case True
    define v1 where "v1 = v\<lparr>heap := poke (heap v) (avail_ring v i) [ucast (of_nat (i + 1) :: u16), ucast (drop_bit 8 (of_nat (i + 1) :: u16))]\<rparr>"
    have inb: "avail_ring v i + 2 \<le> heap_size v"
      using True "1.prems"(1) by (simp add: avail_ring_def)
    then have s: "store_u16 v (avail_ring v i) (of_nat (i + 1)) = Some v1"
      by (simp add: store_u16_def store_def v1_def)
    have av: "avail_ring v1 = avail_ring v"
      by (rule ext) (simp add: avail_ring_def v1_def)
    have "avail_ring v1 (unat num) \<le> heap_size v1" and "i + 1 \<le> unat num"
      using "1.prems"(1) True by (simp_all add: av) (simp add: v1_def)
    from "1.IH" [OF True s this]
    obtain h where h: "init_ring v1 num (i + 1) = Some (v1\<lparr>heap := h\<rparr>)"
      and hl: "\<And>j. i + 1 \<le> j \<Longrightarrow> j < unat num \<Longrightarrow>
                  load_u16 (v1\<lparr>heap := h\<rparr>) (avail_ring v j) = Some (of_nat (j + 1))"
      and hf: "\<And>x. x < avail_ring v (i + 1) \<or> avail_ring v (unat num) \<le> x \<Longrightarrow> h x = heap v1 x"
      unfolding av by blast
    have vh: "v1\<lparr>heap := h\<rparr> = v\<lparr>heap := h\<rparr>" by (simp add: v1_def)
    have r: "init_ring v num i = Some (v\<lparr>heap := h\<rparr>)"
      using True s h by (subst init_ring.simps) (simp add: vh)
    have li: "load_u16 (v\<lparr>heap := h\<rparr>) (avail_ring v i) = Some (of_nat (i + 1))"
    proof -
      have "h (avail_ring v i) = heap v1 (avail_ring v i)"
        and "h (avail_ring v i + 1) = heap v1 (avail_ring v i + 1)"
        by (rule hf, simp add: avail_ring_def)+
      then have "load_u16 (v1\<lparr>heap := h\<rparr>) (avail_ring v i) = load_u16 v1 (avail_ring v i)"
        by (rule load_u16_heap_update)
      also have "\<dots> = Some (of_nat (i + 1))"
        unfolding v1_def using inb by (rule load_u16_store_u16)
      finally show ?thesis by (simp only: vh)
    qed
    have l: "load_u16 (v\<lparr>heap := h\<rparr>) (avail_ring v j) = Some (of_nat (j + 1))"
      if "i \<le> j" and "j < unat num" for j
    proof (cases "j = i")
      case True
      then show ?thesis using li by simp
    next
      case False
      then show ?thesis using hl [of j] that by (simp add: vh)
    qed
    have f: "h x = heap v x" if "x < avail_ring v i \<or> avail_ring v (unat num) \<le> x" for x
    proof -
      have "h x = heap v1 x" using that by (intro hf) (auto simp: avail_ring_def)
      also have "\<dots> = heap v x"
        using that True by (auto simp: v1_def poke_apply avail_ring_def)
      finally show ?thesis .
    qed
    from r l f show ?thesis by blast
  qed
qed


subsection \<open>The constructor\<close>

lemma heap_size_bound:
  fixes num :: u16
  shows "unat num * 16 + 4 + 2 * unat num
           \<le> unat (VIRTIO_ALIGN (get_size (ucast num) (word_of_int VIRTIO_PCI_VRING_ALIGN)))"
proof -
  let ?n = "unat num"
  let ?gs = "get_size (ucast num) (2 ^ 12)"
  have a: "(word_of_int VIRTIO_PCI_VRING_ALIGN :: u64) = 2 ^ 12"
    by (simp add: VIRTIO_PCI_VRING_ALIGN_def)
  have n: "unat (ucast num :: u32) < 2 ^ 16" by (rule unat_ucast_u16_u32(2))
  have k: "(12 :: nat) < 32" by simp
  have g: "unat ?gs = get_size_spec ?n (2 ^ 12)"
    using get_size_small_align(1) [OF k n] by (simp only: unat_ucast_u16_u32(1))
  have lo: "18 * ?n + 6 \<le> round_up (18 * ?n + 6) (2 ^ 12)"
    by (rule round_up_bounds(1)) simp
  have hi: "round_up (18 * ?n + 6) (2 ^ 12) < 18 * ?n + 6 + 2 ^ 12"
    by (rule round_up_bounds(2)) simp
  have e: "get_size_spec ?n (2 ^ 12) = round_up (18 * ?n + 6) (2 ^ 12) + 6 + 8 * ?n"
    by (simp add: get_size_spec_def desc_bytes_def avail_bytes_def used_bytes_def)
  have nn: "?n < 2 ^ 16" using n by (simp only: unat_ucast_u16_u32(1))
  have "unat ?gs + 4095 < 2 ^ 32" using hi nn unfolding g e by simp
  then have "unat (VIRTIO_ALIGN ?gs) = round_up (unat ?gs) 4096"
    by (rule unat_VIRTIO_ALIGN)
  moreover have "unat ?gs \<le> round_up (unat ?gs) 4096"
    by (rule round_up_bounds(1)) simp
  ultimately have "unat ?gs \<le> unat (VIRTIO_ALIGN ?gs)" by simp
  then show ?thesis using lo unfolding a g e by simp
qed

lemma and_not_eq_diff: "(w :: 'a::len word) AND NOT m = w - (w AND m)"
proof -
  have "NOT w AND (w AND m) = 0"
    by (rule bit_eqI) (auto simp: bit_simps)
  then have "w - (w AND m) = w AND NOT (w AND m)"
    by (rule disjunctive_diff_eq_and_not)
  also have "\<dots> = w AND NOT m"
    by (rule bit_eqI) (auto simp: bit_simps)
  finally show ?thesis by (rule sym)
qed

lemma align_minus_base:
  fixes p y :: u64
  assumes "unat y + 4095 < 2 ^ 64"
  shows "unat y \<le> unat (((p + y + 4095) AND NOT 4095) - p)"
proof -
  let ?w = "p + y + 4095"
  let ?c = "?w AND 4095"
  have "?w AND NOT 4095 = ?w - ?c"
    by (rule and_not_eq_diff)
  then have e: "(?w AND NOT 4095) - p = y + 4095 - ?c" by simp
  have c: "?c \<le> 4095" by (rule word_and_le1)
  have u: "unat (y + 4095) = unat y + 4095"
    using assms by (simp add: unat_add_lem [THEN iffD1])
  have "4095 \<le> y + 4095" using u by (simp add: word_le_nat_alt)
  with c have le: "?c \<le> y + 4095" by (rule order_trans)
  have "unat (y + 4095 - ?c) = unat (y + 4095) - unat ?c"
    using le by (rule unat_sub)
  moreover have "unat ?c \<le> 4095" using c by (simp add: word_le_nat_alt)
  ultimately show ?thesis unfolding e u by simp
qed


lemma vring_ctor_result:
  assumes "p \<noteq> 0"
  shows "\<exists>v. vring_ctor p drv num q = Some v
           \<and> v_num v = num \<and> v_desc v = 0 \<and> v_avail v = 16 * unat num
           \<and> avail_ring v (unat num) \<le> heap_size v
           \<and> avail_ring v (unat num) \<le> v_used v
           \<and> (\<forall>i. i < unat num \<longrightarrow> load_u16 v (avail_ring v i) = Some (of_nat (i + 1)))
           \<and> (\<forall>x. x < avail_ring v 0 \<or> avail_ring v (unat num) \<le> x \<longrightarrow> heap v x = 0)"
proof -
  let ?n = "unat num"
  define sz where "sz = VIRTIO_ALIGN (get_size (ucast num) (word_of_int VIRTIO_PCI_VRING_ALIGN))"
  define used where "used = unat (((p + of_nat (?n * 16 + 4 + 2 * ?n) + sizeof_u16
      + word_of_int VIRTIO_PCI_VRING_ALIGN - 1)
      AND word_of_int (NOT (VIRTIO_PCI_VRING_ALIGN - 1))) - p)"
  define v0 where "v0 = \<lparr> v_drv = drv, v_q_index = q, v_vring_ptr = p, v_num = num,
      v_desc = 0, v_avail = ?n * 16, v_used = used, heap_size = unat sz, heap = (\<lambda>_. 0) \<rparr>"
  have c: "vring_ctor p drv num q = init_ring v0 num 0"
    unfolding vring_ctor_def Let_def v0_def used_def sz_def using assms by (simp only: if_False)
  have n: "?n < 2 ^ 16" using unsigned_less [of num, where 'a = nat] by simp
  have b: "avail_ring v0 ?n \<le> heap_size v0"
    using heap_size_bound [of num] by (simp add: v0_def avail_ring_def sz_def)
  from init_ring_result [OF b, of 0]
  obtain h where r: "init_ring v0 num 0 = Some (v0\<lparr>heap := h\<rparr>)"
    and l: "\<And>j. j < ?n \<Longrightarrow> load_u16 (v0\<lparr>heap := h\<rparr>) (avail_ring v0 j) = Some (of_nat (j + 1))"
    and f: "\<And>x. x < avail_ring v0 0 \<or> avail_ring v0 ?n \<le> x \<Longrightarrow> h x = heap v0 x"
    by auto
  let ?v = "v0\<lparr>heap := h\<rparr>"
  have av: "avail_ring ?v = avail_ring v0" by (rule ext) (simp add: avail_ring_def)
  have u: "avail_ring ?v ?n \<le> v_used ?v"
  proof -
    let ?y = "of_nat (?n * 16 + 4 + 2 * ?n) + 2 :: u64"
    have y: "unat ?y = ?n * 16 + 4 + 2 * ?n + 2"
    proof -
      have "?y = of_nat (?n * 16 + 4 + 2 * ?n + 2)" by simp
      moreover have "?n * 16 + 4 + 2 * ?n + 2 < 2 ^ 64" using n by simp
      ultimately show ?thesis by (simp only: unat_of_nat) simp
    qed
    have "(p + of_nat (?n * 16 + 4 + 2 * ?n) + sizeof_u16
            + word_of_int VIRTIO_PCI_VRING_ALIGN - 1) = p + ?y + 4095"
      by (simp add: sizeof_u16_def VIRTIO_PCI_VRING_ALIGN_def)
    moreover have "(word_of_int (NOT (VIRTIO_PCI_VRING_ALIGN - 1)) :: u64) = NOT 4095"
      by (simp add: VIRTIO_PCI_VRING_ALIGN_def)
    ultimately have u1: "used = unat (((p + ?y + 4095) AND NOT 4095) - p)"
      unfolding used_def by (simp only:)
    have u2: "unat ?y \<le> unat (((p + ?y + 4095) AND NOT 4095) - p)"
      using n by (intro align_minus_base) (simp only: y, simp)
    have "?n * 16 + 4 + 2 * ?n + 2 \<le> used"
      unfolding u1 using u2 by (simp only: y)
    then show ?thesis by (simp add: v0_def avail_ring_def)
  qed
  have "v_num ?v = num" "v_desc ?v = 0" "v_avail ?v = 16 * ?n"
    by (simp_all add: v0_def)
  moreover have "avail_ring ?v ?n \<le> heap_size ?v"
    using b by (simp add: av)
  moreover have "\<forall>i. i < ?n \<longrightarrow> load_u16 ?v (avail_ring ?v i) = Some (of_nat (i + 1))"
    using l by (simp add: av)
  moreover have "\<forall>x. x < avail_ring ?v 0 \<or> avail_ring ?v ?n \<le> x \<longrightarrow> heap ?v x = 0"
    using f by (simp add: av) (simp add: v0_def)
  ultimately show ?thesis using u unfolding c r by blast
qed







subsection \<open>What the constructor leaves in the block\<close>





text \<open>
  C8, as amended. The constructor checks neither the queue size nor the allocation: for
  every 16-bit \<open>num\<close>, zero and the numbers that are no power of two included, it builds
  a ring with \<^verbatim>\<open>_num = num\<close> whenever \<^verbatim>\<open>malloc\<close> returned a block.
\<close>

theorem vring_ctor_any_num:
  assumes "p \<noteq> 0"
  shows "\<exists>v. vring_ctor p drv num q = Some v \<and> v_num v = num"
  using vring_ctor_result [OF assms, of drv num q] by blast

theorem vring_ctor_any_num_witness:
  "(0x100000 :: u64) \<noteq> 0 \<and> (\<exists>v. vring_ctor 0x100000 0 3 0 = Some v \<and> v_num v = 3)"
proof -
  have p: "(0x100000 :: u64) \<noteq> 0" by simp
  show ?thesis using p vring_ctor_any_num [OF p, of 0 3 0] by blast
qed

text \<open>
  The claim as stated fails at \<open>num = 3\<close> and at \<open>num = 0\<close>: the constructor returns
  a ring, with the three slots of its available ring initialised in the first case.
\<close>

theorem vring_ctor_any_num_counterexample:
  "map_option v_num (vring_ctor 0x100000 0 3 0) = Some 3
   \<and> vring_ctor 0x100000 0 3 0 \<bind> (\<lambda>v. load_u16 v (avail_ring v 2)) = Some 3
   \<and> map_option v_num (vring_ctor 0x100000 0 0 0) = Some 0"
  by (simp add: eval_simps)


subsection \<open>Submitting on a ring whose slots hold the constructor's next-pointers\<close>

lemma fresh_ringD:
  assumes "fresh_ring v k"
  shows "v_desc v = 0" and "v_avail v = 16 * unat (v_num v)"
    and "avail_ring v (unat (v_num v)) \<le> heap_size v"
    and "load_u16 v (avail_idx v) = Some (of_nat k)"
    and "\<And>i. i < unat (v_num v) \<Longrightarrow> load_u16 v (avail_ring v i) = Some (of_nat (i + 1))"
  using assms unfolding fresh_ring_def by blast+

lemma fresh_ringI:
  assumes "v_desc v = 0" and "v_avail v = 16 * unat (v_num v)"
    and "avail_ring v (unat (v_num v)) \<le> heap_size v"
    and "load_u16 v (avail_idx v) = Some (of_nat k)"
    and "\<And>i. i < unat (v_num v) \<Longrightarrow> load_u16 v (avail_ring v i) = Some (of_nat (i + 1))"
  shows "fresh_ring v k"
  using assms unfolding fresh_ring_def by blast

lemma fresh_ring_heap_update:
  assumes "fresh_ring v k"
    and "\<And>b. v_avail v + 4 \<le> b \<Longrightarrow> h b = heap v b"
    and "load_u16 (v\<lparr>heap := h\<rparr>) (avail_idx v) = Some (of_nat k')"
  shows "fresh_ring (v\<lparr>heap := h\<rparr>) k'"
proof (rule fresh_ringI)
  note D = fresh_ringD [OF assms(1)]
  let ?v = "v\<lparr>heap := h\<rparr>"
  have av: "avail_ring ?v = avail_ring v" "avail_idx ?v = avail_idx v"
    by (simp_all add: avail_ring_def avail_idx_def fun_eq_iff)
  show "v_desc ?v = 0" using D(1) by simp
  show "v_avail ?v = 16 * unat (v_num ?v)" using D(2) by simp
  show "avail_ring ?v (unat (v_num ?v)) \<le> heap_size ?v" using D(3) by (simp add: av)
  show "load_u16 ?v (avail_idx ?v) = Some (of_nat k')" using assms(3) by (simp only: av)
  show "load_u16 ?v (avail_ring ?v i) = Some (of_nat (i + 1))" if "i < unat (v_num ?v)" for i
  proof -
    have "load_u16 ?v (avail_ring v i) = load_u16 v (avail_ring v i)"
      by (intro load_u16_heap_update assms(2)) (simp_all add: avail_ring_def)
    moreover have "i < unat (v_num v)" using that by simp
    ultimately show ?thesis by (simp only: av D(5))
  qed
qed

lemma fresh_ring_store_below:
  assumes "fresh_ring v k" and "a + length bs \<le> v_avail v"
  shows "store v a bs = Some (v\<lparr>heap := poke (heap v) a bs\<rparr>)"
    and "fresh_ring (v\<lparr>heap := poke (heap v) a bs\<rparr>) k"
proof -
  note D = fresh_ringD [OF assms(1)]
  have "a + length bs \<le> heap_size v"
    using D(3) assms(2) by (simp add: avail_ring_def)
  then show "store v a bs = Some (v\<lparr>heap := poke (heap v) a bs\<rparr>)"
    by (simp add: store_def)
  have same: "poke (heap v) a bs b = heap v b" if "v_avail v \<le> b" for b
    using that assms(2) by (simp add: poke_apply)
  have "load_u16 (v\<lparr>heap := poke (heap v) a bs\<rparr>) (avail_idx v) = load_u16 v (avail_idx v)"
    by (intro load_u16_heap_update same) (simp_all add: avail_idx_def)
  then have "load_u16 (v\<lparr>heap := poke (heap v) a bs\<rparr>) (avail_idx v) = Some (of_nat k)"
    by (simp only: D(4))
  then show "fresh_ring (v\<lparr>heap := poke (heap v) a bs\<rparr>) k"
    using same by (intro fresh_ring_heap_update [OF assms(1)]) simp_all
qed

lemma fresh_ring_store_idx:
  assumes "fresh_ring v k"
  shows "store_u16 v (avail_idx v) x
           = Some (v\<lparr>heap := poke (heap v) (avail_idx v) [ucast x, ucast (drop_bit 8 x)]\<rparr>)"
    and "x = of_nat k' \<Longrightarrow>
         fresh_ring (v\<lparr>heap := poke (heap v) (avail_idx v) [ucast x, ucast (drop_bit 8 x)]\<rparr>) k'"
    and "b + 2 \<le> v_avail v \<Longrightarrow>
         load_u16 (v\<lparr>heap := poke (heap v) (avail_idx v) [ucast x, ucast (drop_bit 8 x)]\<rparr>) b
           = load_u16 v b"
proof -
  let ?v = "v\<lparr>heap := poke (heap v) (avail_idx v) [ucast x, ucast (drop_bit 8 x)]\<rparr>"
  note D = fresh_ringD [OF assms(1)]
  have inb: "avail_idx v + 2 \<le> heap_size v"
    using D(3) by (simp add: avail_idx_def avail_ring_def)
  then show "store_u16 v (avail_idx v) x = Some ?v"
    by (simp add: store_u16_def store_def)
  have same: "load_u16 ?v (avail_idx v) = Some x"
    using inb by (rule load_u16_store_u16)
  show "fresh_ring ?v k'" if "x = of_nat k'"
  proof (rule fresh_ring_heap_update [OF assms(1)])
    show "poke (heap v) (avail_idx v) [ucast x, ucast (drop_bit 8 x)] b = heap v b"
      if "v_avail v + 4 \<le> b" for b
      using that by (simp add: poke_apply avail_idx_def)
    show "load_u16 ?v (avail_idx v) = Some (of_nat k')"
      using same that by (simp only:)
  qed
  show "load_u16 ?v b = load_u16 v b" if "b + 2 \<le> v_avail v"
    using that by (intro load_u16_heap_update) (simp_all add: poke_apply avail_idx_def)
qed

lemma unat_of_nat_u16: "m < 2 ^ 16 \<Longrightarrow> unat (of_nat m :: u16) = m"
  by (simp add: unat_of_nat)

lemma add_buf_body_fresh:
  assumes fr: "fresh_ring v k" and k: "k + 2 \<le> unat (v_num v)"
  shows "\<exists>v'. add_buf_body v (16 * (k + 1)) node i in' = Some (v', 16 * (k + 2))
              \<and> fresh_ring v' (k + 1) \<and> v_num v' = v_num v"
proof -
  let ?d = "16 * (k + 1)"
  have n: "unat (v_num v) < 2 ^ 16" using unsigned_less [of "v_num v", where 'a = nat] by simp
  have av: "v_avail v = 16 * unat (v_num v)" and de: "v_desc v = 0"
    using fr by (simp_all add: fresh_ring_def)
  have room: "?d + 16 \<le> v_avail v" using k av by simp
  define v1 where "v1 = v\<lparr>heap := poke (heap v) (desc_flags ?d)
      [ucast (flags_expr i in'), ucast (drop_bit 8 (flags_expr i in'))]\<rparr>"
  have s1: "store_u16 v (desc_flags ?d) (flags_expr i in') = Some v1" and f1: "fresh_ring v1 k"
    unfolding v1_def store_u16_def using room
    by (intro fresh_ring_store_below [OF fr]; simp add: desc_flags_def)+
  define v2 where "v2 = v1\<lparr>heap := poke (heap v1) (desc_paddr ?d)
      [ucast (sg_paddr node), ucast (drop_bit 8 (sg_paddr node)), ucast (drop_bit 16 (sg_paddr node)),
       ucast (drop_bit 24 (sg_paddr node)), ucast (drop_bit 32 (sg_paddr node)),
       ucast (drop_bit 40 (sg_paddr node)), ucast (drop_bit 48 (sg_paddr node)),
       ucast (drop_bit 56 (sg_paddr node))]\<rparr>"
  have a1: "v_avail v1 = v_avail v" by (simp add: v1_def)
  have s2: "store_u64 v1 (desc_paddr ?d) (sg_paddr node) = Some v2" and f2: "fresh_ring v2 k"
    unfolding v2_def store_u64_def using room a1
    by (intro fresh_ring_store_below [OF f1]; simp add: desc_paddr_def)+
  define v3 where "v3 = v2\<lparr>heap := poke (heap v2) (desc_len ?d)
      [ucast (sg_len node), ucast (drop_bit 8 (sg_len node)), ucast (drop_bit 16 (sg_len node)),
       ucast (drop_bit 24 (sg_len node))]\<rparr>"
  have a2: "v_avail v2 = v_avail v" by (simp add: v2_def a1)
  have s3: "store_u32 v2 (desc_len ?d) (sg_len node) = Some v3" and f3: "fresh_ring v3 k"
    unfolding v3_def store_u32_def using room a2
    by (intro fresh_ring_store_below [OF f2]; simp add: desc_len_def)+
  have a3: "v_avail v3 = v_avail v" and n3: "v_num v3 = v_num v"
    by (simp_all add: v3_def v2_def v1_def)
  have kk: "k < unat (v_num v)" "k + 1 < unat (v_num v)" using k by simp_all
  have uk: "unat (of_nat k :: u16) = k" "unat (of_nat (k + 1) :: u16) = k + 1"
    "unat (of_nat (k + 2) :: u16) = k + 2"
    using k n by (intro unat_of_nat_u16; simp)+
  have l3: "load_u16 v3 (avail_idx v3) = Some (of_nat k)"
    by (rule fresh_ringD(4) [OF f3])
  have r3: "load_u16 v3 (avail_ring v3 k) = Some (of_nat (k + 1))"
    using kk n3 by (intro fresh_ringD(5) [OF f3]) simp
  define v4 where "v4 = v3\<lparr>heap := poke (heap v3) (desc_next ?d)
      [ucast (of_nat (k + 1) :: u16), ucast (drop_bit 8 (of_nat (k + 1) :: u16))]\<rparr>"
  have s4: "store_u16 v3 (desc_next ?d) (of_nat (k + 1)) = Some v4" and f4: "fresh_ring v4 k"
    unfolding v4_def store_u16_def using room a3
    by (intro fresh_ring_store_below [OF f3]; simp add: desc_next_def)+
  have a4: "v_avail v4 = v_avail v" and n4: "v_num v4 = v_num v"
    by (simp_all add: v4_def a3 n3)
  have hs4: "desc_next ?d + 2 \<le> heap_size v3"
    using fresh_ringD(3) [OF f3] room a3 by (simp add: avail_ring_def desc_next_def)
  have nx4: "load_u16 v4 (desc_next ?d) = Some (of_nat (k + 1))"
    unfolding v4_def using hs4 by (rule load_u16_store_u16)
  have l4: "load_u16 v4 (avail_idx v4) = Some (of_nat k)"
    by (rule fresh_ringD(4) [OF f4])
  define v5 where "v5 = v4\<lparr>heap := poke (heap v4) (avail_idx v4)
      [ucast (of_nat k + 1 :: u16), ucast (drop_bit 8 (of_nat k + 1 :: u16))]\<rparr>"
  have s5: "store_u16 v4 (avail_idx v4) (of_nat k + 1) = Some v5"
    unfolding v5_def by (rule fresh_ring_store_idx(1) [OF f4])
  have f5: "fresh_ring v5 (k + 1)"
    unfolding v5_def by (rule fresh_ring_store_idx(2) [OF f4]) simp
  have nx5: "load_u16 v5 (desc_next ?d) = Some (of_nat (k + 1))"
    unfolding v5_def using room a4 nx4
    by (subst fresh_ring_store_idx(3) [OF f4]) (simp_all add: desc_next_def)
  have n5: "v_num v5 = v_num v" by (simp add: v5_def n4)
  have d5: "v_desc v5 = 0" by (rule fresh_ringD(1) [OF f5])
  have e2: "k + 1 + 1 = k + 2" by simp
  have "load_u16 v5 (avail_ring v5 (k + 1)) = Some (of_nat (k + 1 + 1))"
    using kk n5 by (intro fresh_ringD(5) [OF f5]) simp
  then have r5: "load_u16 v5 (avail_ring v5 (k + 1)) = Some (of_nat (k + 2))"
    by (simp only: e2)
  have "add_buf_body v ?d node i in' = Some (v5, desc_at v5 (of_nat (k + 2)))"
    unfolding add_buf_body_def
    by (simp only: s1 s2 s3 l3 uk r3 s4 l4 s5 nx5 r5 Option.bind.simps)
  moreover have "desc_at v5 (of_nat (k + 2)) = 16 * (k + 2)"
    unfolding desc_at_def by (simp only: d5 uk)
  ultimately show ?thesis using f5 n5 by simp
qed


lemma add_buf_loop_fresh:
  assumes "fresh_ring v k" and "k + m + 2 \<le> unat (v_num v)"
    and "m = unat in' + unat out - i" and "m \<le> length ii"
  shows "\<exists>v'. add_buf_loop v (16 * (k + 1)) ii i out in' = Some (v', 16 * (k + m + 1))
              \<and> fresh_ring v' (k + m) \<and> v_num v' = v_num v"
  using assms
proof (induction m arbitrary: v k ii i)
  case 0
  from "0.prems"(3) have "unat in' + unat out \<le> i" by linarith
  then have "\<not> int i < uint in' + uint out" unfolding uint_nat by linarith
  then have "add_buf_loop v (16 * (k + 1)) ii i out in' = Some (v, 16 * (k + 1))"
    by (rule add_buf_loop_done)
  with "0.prems"(1) show ?case by simp
next
  case (Suc m)
  from Suc.prems(3) have "i < unat in' + unat out" by linarith
  then have c: "int i < uint in' + uint out" unfolding uint_nat by linarith
  from Suc.prems(4) obtain node ii' where ii: "ii = node # ii'" by (cases ii) simp_all
  from Suc.prems(2) have "k + 2 \<le> unat (v_num v)" by simp
  from add_buf_body_fresh [OF Suc.prems(1) this, of node i in']
  obtain v1 where b: "add_buf_body v (16 * (k + 1)) node i in' = Some (v1, 16 * (k + 2))"
    and f1: "fresh_ring v1 (k + 1)" and n1: "v_num v1 = v_num v"
    by blast
  have "\<exists>v'. add_buf_loop v1 (16 * (k + 1 + 1)) ii' (i + 1) out in' = Some (v', 16 * (k + 1 + m + 1))
              \<and> fresh_ring v' (k + 1 + m) \<and> v_num v' = v_num v1"
    using Suc.prems(2,3,4) ii n1 by (intro Suc.IH [OF f1]) simp_all
  then obtain v' where l: "add_buf_loop v1 (16 * (k + 2)) ii' (i + 1) out in' = Some (v', 16 * (k + Suc m + 1))"
    and f: "fresh_ring v' (k + Suc m)" and n: "v_num v' = v_num v"
    using n1 by (auto simp: add.commute add.left_commute)
  have "add_buf_loop v (16 * (k + 1)) ii i out in' = Some (v', 16 * (k + Suc m + 1))"
    unfolding ii by (simp only: add_buf_loop_step [OF c] b l Option.bind.simps prod.case)
  with f n show ?case by blast
qed

lemma add_buf_fresh:
  assumes fr: "fresh_ring v k"
    and room: "k + (unat out + unat in') + 2 \<le> unat (v_num v)"
    and len: "unat out + unat in' \<le> length sg"
  shows "\<exists>v'. add_buf v sg out in' cookie = Some (True, v')
              \<and> fresh_ring v' (k + (unat out + unat in')) \<and> v_num v' = v_num v"
proof -
  let ?m = "unat out + unat in'"
  note D = fresh_ringD [OF fr]
  have n: "unat (v_num v) < 2 ^ 16" using unsigned_less [of "v_num v", where 'a = nat] by simp
  have uk: "unat (of_nat k :: u16) = k" using room n by (intro unat_of_nat_u16) simp
  have r0: "load_u16 v (avail_ring v k) = Some (of_nat (k + 1))"
    using room by (intro D(5)) simp
  have uk1: "unat (of_nat (k + 1) :: u16) = k + 1" using room n by (intro unat_of_nat_u16) simp
  have d0: "desc_at v (of_nat (k + 1)) = 16 * (k + 1)"
    unfolding desc_at_def by (simp only: D(1) uk1)
  have "\<exists>v'. add_buf_loop v (16 * (k + 1)) sg 0 out in' = Some (v', 16 * (k + ?m + 1))
              \<and> fresh_ring v' (k + ?m) \<and> v_num v' = v_num v"
    using room len by (intro add_buf_loop_fresh [OF fr]) simp_all
  then obtain v1 where l: "add_buf_loop v (16 * (k + 1)) sg 0 out in' = Some (v1, 16 * (k + ?m + 1))"
    and f1: "fresh_ring v1 (k + ?m)" and n1: "v_num v1 = v_num v"
    by blast
  let ?d = "16 * (k + ?m + 1)"
  note D1 = fresh_ringD [OF f1]
  have below: "desc_flags ?d + 2 \<le> v_avail v1"
    using room n1 by (simp add: D1(2) desc_flags_def)
  then have "desc_flags ?d + 2 \<le> heap_size v1"
    using D1(3) by (simp add: avail_ring_def)
  then obtain fl where fl: "load_u16 v1 (desc_flags ?d) = Some fl"
    by (simp add: load_u16_def)
  let ?x = "word_of_int (uint fl AND NOT VRING_DESC_F_NEXT) :: u16"
  let ?v2 = "v1\<lparr>heap := poke (heap v1) (desc_flags ?d) [ucast ?x, ucast (drop_bit 8 ?x)]\<rparr>"
  have s: "store_u16 v1 (desc_flags ?d) ?x = Some ?v2" and f2: "fresh_ring ?v2 (k + ?m)"
    unfolding store_u16_def using below
    by (intro fresh_ring_store_below [OF f1]; simp)+
  have "add_buf v sg out in' cookie = Some (True, ?v2)"
    unfolding add_buf_def
    by (simp only: D(4) uk r0 d0 l fl s Option.bind.simps prod.case)
  moreover have "v_num ?v2 = v_num v" using n1 by simp
  ultimately show ?thesis using f2 by blast
qed


lemma add_buf_body_writes:
  assumes fr: "fresh_ring v k" and k: "k + 2 \<le> unat (v_num v)"
    and b: "add_buf_body v (16 * (k + 1)) node i in' = Some (v', d')"
  shows "heap_size v' = heap_size v"
    and "\<And>x. x < 16 * (k + 1) \<Longrightarrow> heap v' x = heap v x"
    and "load_u64 v' (desc_paddr (16 * (k + 1))) = Some (sg_paddr node)"
    and "load_u32 v' (desc_len (16 * (k + 1))) = Some (sg_len node)"
proof -
  define d where "d = 16 * (k + 1)"
  have av: "v_avail v = 16 * unat (v_num v)" using fr by (simp add: fresh_ring_def)
  have hb: "avail_ring v (unat (v_num v)) \<le> heap_size v" using fr by (simp add: fresh_ring_def)
  have room: "d + 16 \<le> v_avail v" using k av by (simp add: d_def)
  have inb: "d + 16 \<le> heap_size v" using room hb by (simp add: avail_ring_def)
  from b have "add_buf_body v d node i in' = Some (v', d')" by (simp only: d_def)
  then have "\<exists>v1 v2 v3 (r :: u16) v4 (x :: u16).
      store v (desc_flags d) [ucast (flags_expr i in'), ucast (drop_bit 8 (flags_expr i in'))] = Some v1
    \<and> store v1 (desc_paddr d)
      [ucast (sg_paddr node), ucast (drop_bit 8 (sg_paddr node)), ucast (drop_bit 16 (sg_paddr node)),
       ucast (drop_bit 24 (sg_paddr node)), ucast (drop_bit 32 (sg_paddr node)),
       ucast (drop_bit 40 (sg_paddr node)), ucast (drop_bit 48 (sg_paddr node)),
       ucast (drop_bit 56 (sg_paddr node))] = Some v2
    \<and> store v2 (desc_len d)
      [ucast (sg_len node), ucast (drop_bit 8 (sg_len node)), ucast (drop_bit 16 (sg_len node)),
       ucast (drop_bit 24 (sg_len node))] = Some v3
    \<and> store v3 (desc_next d) [ucast r, ucast (drop_bit 8 r)] = Some v4
    \<and> store v4 (avail_idx v4) [ucast x, ucast (drop_bit 8 x)] = Some v'"
    unfolding add_buf_body_def store_u16_def store_u32_def store_u64_def
    by (clarsimp simp: bind_eq_Some_conv) (intro exI conjI, assumption+)
  then obtain v1 v2 v3 and r :: u16 and v4 and x :: u16 where
    s1: "store v (desc_flags d) [ucast (flags_expr i in'), ucast (drop_bit 8 (flags_expr i in'))] = Some v1"
    and s2: "store v1 (desc_paddr d)
      [ucast (sg_paddr node), ucast (drop_bit 8 (sg_paddr node)), ucast (drop_bit 16 (sg_paddr node)),
       ucast (drop_bit 24 (sg_paddr node)), ucast (drop_bit 32 (sg_paddr node)),
       ucast (drop_bit 40 (sg_paddr node)), ucast (drop_bit 48 (sg_paddr node)),
       ucast (drop_bit 56 (sg_paddr node))] = Some v2"
    and s3: "store v2 (desc_len d)
      [ucast (sg_len node), ucast (drop_bit 8 (sg_len node)), ucast (drop_bit 16 (sg_len node)),
       ucast (drop_bit 24 (sg_len node))] = Some v3"
    and s4: "store v3 (desc_next d) [ucast r, ucast (drop_bit 8 r)] = Some v4"
    and s5: "store v4 (avail_idx v4) [ucast x, ucast (drop_bit 8 x)] = Some v'"
    by blast
  note e1 = s1 [unfolded store_Some, THEN conjunct2]
    and e2 = s2 [unfolded store_Some, THEN conjunct2]
    and e3 = s3 [unfolded store_Some, THEN conjunct2]
    and e4 = s4 [unfolded store_Some, THEN conjunct2]
    and e5 = s5 [unfolded store_Some, THEN conjunct2]
  have z1: "heap_size v1 = heap_size v" "v_avail v1 = v_avail v" by (simp_all add: e1)
  have z2: "heap_size v2 = heap_size v" "v_avail v2 = v_avail v" by (simp_all add: e2 z1)
  have z3: "heap_size v3 = heap_size v" "v_avail v3 = v_avail v" by (simp_all add: e3 z2)
  have z4: "heap_size v4 = heap_size v" "v_avail v4 = v_avail v" by (simp_all add: e4 z3)
  have z5: "heap_size v' = heap_size v" by (simp add: e5 z4)
  have h1: "heap v1 y = heap v y" if "y < d + 12 \<or> d + 14 \<le> y" for y
    using that by (auto simp: e1 poke_apply desc_flags_def)
  have h2: "heap v2 y = heap v1 y" if "y < d \<or> d + 8 \<le> y" for y
    using that by (auto simp: e2 poke_apply desc_paddr_def)
  have h3: "heap v3 y = heap v2 y" if "y < d + 8 \<or> d + 12 \<le> y" for y
    using that by (auto simp: e3 poke_apply desc_len_def)
  have h4: "heap v4 y = heap v3 y" if "y < d + 14" for y
    using that by (auto simp: e4 poke_apply desc_next_def)
  have h5: "heap v' y = heap v4 y" if "y < d + 16" for y
    using that room by (auto simp: e5 poke_apply avail_idx_def z4)
  have f: "heap v' y = heap v y" if "y < d" for y
    using that by (simp add: h5 h4 h3 h2 h1)
  have "load_u64 v' (desc_paddr d) = load_u64 v2 (desc_paddr d)"
    by (rule load_u64_frame) (simp_all add: z5 z2 desc_paddr_def h5 h4 h3)
  also have "\<dots> = Some (sg_paddr node)"
    unfolding e2 using inb by (intro load_u64_store_u64) (simp add: z1 desc_paddr_def)
  finally have p: "load_u64 v' (desc_paddr d) = Some (sg_paddr node)" .
  have "load_u32 v' (desc_len d) = load_u32 v3 (desc_len d)"
    by (rule load_u32_frame) (simp_all add: z5 z3 desc_len_def h5 h4)
  also have "\<dots> = Some (sg_len node)"
    unfolding e3 using inb by (intro load_u32_store_u32) (simp add: z2 desc_len_def)
  finally have l: "load_u32 v' (desc_len d) = Some (sg_len node)" .
  show "heap_size v' = heap_size v" by (rule z5)
  show "heap v' x = heap v x" if "x < 16 * (k + 1)" for x
    using that f unfolding d_def by blast
  show "load_u64 v' (desc_paddr (16 * (k + 1))) = Some (sg_paddr node)"
    using p unfolding d_def .
  show "load_u32 v' (desc_len (16 * (k + 1))) = Some (sg_len node)"
    using l unfolding d_def .
qed


lemma add_buf_loop_writes:
  assumes "fresh_ring v k" and "k + m + 2 \<le> unat (v_num v)"
    and "m = unat in' + unat out - i" and "m \<le> length ii"
    and "add_buf_loop v (16 * (k + 1)) ii i out in' = Some (v', d')"
  shows "heap_size v' = heap_size v \<and> (\<forall>x < 16 * (k + 1). heap v' x = heap v x)
       \<and> (\<forall>j < m. load_u64 v' (desc_paddr (16 * (k + 1 + j))) = Some (sg_paddr (ii ! j))
                 \<and> load_u32 v' (desc_len (16 * (k + 1 + j))) = Some (sg_len (ii ! j)))"
  using assms
proof (induction m arbitrary: v k ii i)
  case 0
  from "0.prems"(3) have "unat in' + unat out \<le> i" by linarith
  then have "\<not> int i < uint in' + uint out" unfolding uint_nat by linarith
  then have "add_buf_loop v (16 * (k + 1)) ii i out in' = Some (v, 16 * (k + 1))"
    by (rule add_buf_loop_done)
  with "0.prems"(5) have "v' = v" by simp
  then show ?case by simp
next
  case (Suc m)
  from Suc.prems(3) have "i < unat in' + unat out" by linarith
  then have c: "int i < uint in' + uint out" unfolding uint_nat by linarith
  from Suc.prems(4) obtain node ii' where ii: "ii = node # ii'" by (cases ii) simp_all
  from Suc.prems(2) have k2: "k + 2 \<le> unat (v_num v)" by simp
  from add_buf_body_fresh [OF Suc.prems(1) k2, of node i in']
  obtain v1 where b: "add_buf_body v (16 * (k + 1)) node i in' = Some (v1, 16 * (k + 2))"
    and f1: "fresh_ring v1 (k + 1)" and n1: "v_num v1 = v_num v"
    by blast
  note w = add_buf_body_writes [OF Suc.prems(1) k2 b]
  have "add_buf_loop v (16 * (k + 1)) ii i out in'
          = add_buf_loop v1 (16 * (k + 2)) ii' (i + 1) out in'"
    unfolding ii by (simp only: add_buf_loop_step [OF c] b Option.bind.simps prod.case)
  with Suc.prems(5) have l: "add_buf_loop v1 (16 * (k + 1 + 1)) ii' (i + 1) out in' = Some (v', d')"
    by simp
  have "heap_size v' = heap_size v1 \<and> (\<forall>x < 16 * (k + 1 + 1). heap v' x = heap v1 x)
       \<and> (\<forall>j < m. load_u64 v' (desc_paddr (16 * (k + 1 + 1 + j))) = Some (sg_paddr (ii' ! j))
                 \<and> load_u32 v' (desc_len (16 * (k + 1 + 1 + j))) = Some (sg_len (ii' ! j)))"
    using Suc.prems(2,3,4) ii n1 by (intro Suc.IH [OF f1 _ _ _ l]) simp_all
  then have hs: "heap_size v' = heap_size v1"
    and fr: "\<And>x. x < 16 * (k + 1) + 16 \<Longrightarrow> heap v' x = heap v1 x"
    and ld: "\<And>j. j < m \<Longrightarrow> load_u64 v' (desc_paddr (16 * (k + 1 + (j + 1)))) = Some (sg_paddr (ii' ! j))
                 \<and> load_u32 v' (desc_len (16 * (k + 1 + (j + 1)))) = Some (sg_len (ii' ! j))"
    by (simp_all add: add.assoc)
  have p0: "load_u64 v' (desc_paddr (16 * (k + 1))) = Some (sg_paddr node)"
  proof -
    have "load_u64 v' (desc_paddr (16 * (k + 1))) = load_u64 v1 (desc_paddr (16 * (k + 1)))"
      by (rule load_u64_frame [OF hs]) (rule fr, simp add: desc_paddr_def)
    then show ?thesis by (simp only: w(3))
  qed
  have l0: "load_u32 v' (desc_len (16 * (k + 1))) = Some (sg_len node)"
  proof -
    have "load_u32 v' (desc_len (16 * (k + 1))) = load_u32 v1 (desc_len (16 * (k + 1)))"
      by (rule load_u32_frame [OF hs]) (rule fr, simp add: desc_len_def)
    then show ?thesis by (simp only: w(4))
  qed
  have all: "load_u64 v' (desc_paddr (16 * (k + 1 + j))) = Some (sg_paddr (ii ! j))
                 \<and> load_u32 v' (desc_len (16 * (k + 1 + j))) = Some (sg_len (ii ! j))"
    if "j < Suc m" for j
  proof (cases j)
    case 0
    then show ?thesis using p0 l0 by (simp add: ii)
  next
    case (Suc j')
    then have "j' < m" using that by simp
    from ld [OF this] show ?thesis unfolding Suc ii by simp
  qed
  have "heap v' x = heap v x" if "x < 16 * (k + 1)" for x
    using that fr [of x] w(2) [of x] by simp
  with hs w(1) all show ?case by simp
qed

lemma add_buf_writes:
  assumes fr: "fresh_ring v k"
    and room: "k + (unat out + unat in') + 2 \<le> unat (v_num v)"
    and len: "unat out + unat in' \<le> length sg"
  shows "\<exists>v'. add_buf v sg out in' cookie = Some (True, v')
              \<and> fresh_ring v' (k + (unat out + unat in')) \<and> v_num v' = v_num v
              \<and> heap_size v' = heap_size v \<and> (\<forall>x < 16 * (k + 1). heap v' x = heap v x)
              \<and> (\<forall>j < unat out + unat in'.
                    load_u64 v' (desc_paddr (16 * (k + 1 + j))) = Some (sg_paddr (sg ! j))
                  \<and> load_u32 v' (desc_len (16 * (k + 1 + j))) = Some (sg_len (sg ! j)))"
proof -
  let ?m = "unat out + unat in'"
  note D = fresh_ringD [OF fr]
  have n: "unat (v_num v) < 2 ^ 16" using unsigned_less [of "v_num v", where 'a = nat] by simp
  have uk: "unat (of_nat k :: u16) = k" using room n by (intro unat_of_nat_u16) simp
  have r0: "load_u16 v (avail_ring v k) = Some (of_nat (k + 1))"
    using room by (intro D(5)) simp
  have uk1: "unat (of_nat (k + 1) :: u16) = k + 1" using room n by (intro unat_of_nat_u16) simp
  have d0: "desc_at v (of_nat (k + 1)) = 16 * (k + 1)"
    unfolding desc_at_def by (simp only: D(1) uk1)
  have "\<exists>v'. add_buf_loop v (16 * (k + 1)) sg 0 out in' = Some (v', 16 * (k + ?m + 1))
              \<and> fresh_ring v' (k + ?m) \<and> v_num v' = v_num v"
    using room len by (intro add_buf_loop_fresh [OF fr]) simp_all
  then obtain v1 where l: "add_buf_loop v (16 * (k + 1)) sg 0 out in' = Some (v1, 16 * (k + ?m + 1))"
    and f1: "fresh_ring v1 (k + ?m)" and n1: "v_num v1 = v_num v"
    by blast
  have "heap_size v1 = heap_size v \<and> (\<forall>x < 16 * (k + 1). heap v1 x = heap v x)
       \<and> (\<forall>j < ?m. load_u64 v1 (desc_paddr (16 * (k + 1 + j))) = Some (sg_paddr (sg ! j))
                 \<and> load_u32 v1 (desc_len (16 * (k + 1 + j))) = Some (sg_len (sg ! j)))"
    using room len by (intro add_buf_loop_writes [OF fr _ _ _ l]) simp_all
  then have hs1: "heap_size v1 = heap_size v"
    and fr1: "\<And>x. x < 16 * (k + 1) \<Longrightarrow> heap v1 x = heap v x"
    and ld1: "\<And>j. j < ?m \<Longrightarrow> load_u64 v1 (desc_paddr (16 * (k + 1 + j))) = Some (sg_paddr (sg ! j))
                 \<and> load_u32 v1 (desc_len (16 * (k + 1 + j))) = Some (sg_len (sg ! j))"
    by blast+
  let ?d = "16 * (k + ?m + 1)"
  note D1 = fresh_ringD [OF f1]
  have below: "desc_flags ?d + 2 \<le> v_avail v1"
    using room n1 by (simp add: D1(2) desc_flags_def)
  then have "desc_flags ?d + 2 \<le> heap_size v1"
    using D1(3) by (simp add: avail_ring_def)
  then obtain fl where fl: "load_u16 v1 (desc_flags ?d) = Some fl"
    by (simp add: load_u16_def)
  let ?x = "word_of_int (uint fl AND NOT VRING_DESC_F_NEXT) :: u16"
  let ?v2 = "v1\<lparr>heap := poke (heap v1) (desc_flags ?d) [ucast ?x, ucast (drop_bit 8 ?x)]\<rparr>"
  have s: "store_u16 v1 (desc_flags ?d) ?x = Some ?v2" and f2: "fresh_ring ?v2 (k + ?m)"
    unfolding store_u16_def using below
    by (intro fresh_ring_store_below [OF f1]; simp)+
  have a: "add_buf v sg out in' cookie = Some (True, ?v2)"
    unfolding add_buf_def
    by (simp only: D(4) uk r0 d0 l fl s Option.bind.simps prod.case)
  have nv: "v_num ?v2 = v_num v" using n1 by simp
  have hs2: "heap_size ?v2 = heap_size v1" by simp
  have fr2: "heap ?v2 x = heap v1 x" if "x < ?d" for x
    using that by (simp add: poke_apply desc_flags_def)
  have ld2: "load_u64 ?v2 (desc_paddr (16 * (k + 1 + j))) = Some (sg_paddr (sg ! j))
           \<and> load_u32 ?v2 (desc_len (16 * (k + 1 + j))) = Some (sg_len (sg ! j))"
    if "j < ?m" for j
  proof -
    have "load_u64 ?v2 (desc_paddr (16 * (k + 1 + j))) = load_u64 v1 (desc_paddr (16 * (k + 1 + j)))"
      using that by (intro load_u64_frame [OF hs2] fr2) (simp add: desc_paddr_def)
    moreover have "load_u32 ?v2 (desc_len (16 * (k + 1 + j))) = load_u32 v1 (desc_len (16 * (k + 1 + j)))"
      using that by (intro load_u32_frame [OF hs2] fr2) (simp add: desc_len_def)
    ultimately show ?thesis using ld1 [OF that] by (simp only:)
  qed
  have fr3: "heap ?v2 x = heap v x" if "x < 16 * (k + 1)" for x
  proof -
    have "heap ?v2 x = heap v1 x" using that by (intro fr2) simp
    then show ?thesis using fr1 [OF that] by (simp only:)
  qed
  have "heap_size ?v2 = heap_size v" using hs1 by simp
  with a f2 nv fr3 ld2 show ?thesis by blast
qed


lemma vring_ctor_fresh_ring:
  assumes "p \<noteq> 0"
  shows "\<exists>v. vring_ctor p drv num q = Some v \<and> v_num v = num \<and> fresh_ring v 0"
proof -
  from vring_ctor_result [OF assms, of drv num q]
  obtain v where c: "vring_ctor p drv num q = Some v"
    and nm: "v_num v = num"
    and d: "v_desc v = 0" "v_avail v = 16 * unat num"
    and hs: "avail_ring v (unat num) \<le> heap_size v"
    and l: "\<And>i. i < unat num \<Longrightarrow> load_u16 v (avail_ring v i) = Some (of_nat (i + 1))"
    and z: "\<And>x. x < avail_ring v 0 \<or> avail_ring v (unat num) \<le> x \<Longrightarrow> heap v x = 0"
    by blast
  have "heap v (avail_idx v) = 0" and "heap v (avail_idx v + 1) = 0"
    by (rule z, simp add: avail_idx_def avail_ring_def)+
  moreover have "avail_idx v + 2 \<le> heap_size v"
    using hs by (simp add: avail_idx_def avail_ring_def)
  ultimately have "load_u16 v (avail_idx v) = Some (of_nat 0)"
    by (simp add: load_u16_def)
  then have "fresh_ring v 0"
    using d hs l unfolding nm [symmetric] by (intro fresh_ringI)
  with c nm show ?thesis by blast
qed

text \<open>
  C6, as amended. \<^verbatim>\<open>add_buf\<close> appends no entry to the available ring and advances
  \<open>avail.idx\<close> once per segment. On a ring in the constructor's layout whose slots still
  hold the constructor's next-pointers and whose \<open>avail.idx\<close> is \<open>k\<close>, a call with
  \<open>n = out + in\<close> segments, where the list has at least \<open>n\<close> nodes and
  \<open>k + n + 2 \<le> num\<close> (the descriptors it touches lie inside the table), returns
  \<^verbatim>\<open>true\<close>, leaves every slot of the available ring as it was and leaves
  \<open>avail.idx = k + n\<close>.
\<close>

theorem add_buf_advances_idx:
  assumes "fresh_ring v k"
    and "k + (unat out + unat in') + 2 \<le> unat (v_num v)"
    and "unat out + unat in' \<le> length sg"
  shows "\<exists>v'. add_buf v sg out in' cookie = Some (True, v')
              \<and> load_u16 v' (avail_idx v') = Some (of_nat (k + (unat out + unat in')))
              \<and> (\<forall>i. i < unat (v_num v) \<longrightarrow>
                     load_u16 v' (avail_ring v' i) = load_u16 v (avail_ring v i))
              \<and> fresh_ring v' (k + (unat out + unat in'))"
proof -
  from add_buf_fresh [OF assms, of cookie]
  obtain v' where a: "add_buf v sg out in' cookie = Some (True, v')"
    and f: "fresh_ring v' (k + (unat out + unat in'))" and n: "v_num v' = v_num v"
    by blast
  have "load_u16 v' (avail_ring v' i) = load_u16 v (avail_ring v i)" if "i < unat (v_num v)" for i
    using that n by (simp only: fresh_ringD(5) [OF f] fresh_ringD(5) [OF assms(1)])
  with a f fresh_ringD(4) [OF f] show ?thesis by blast
qed

theorem add_buf_advances_idx_witness:
  "\<exists>v v'. vring_ctor 0x100000 0 4 0 = Some v \<and> fresh_ring v 0
      \<and> 0 + (unat (1 :: u16) + unat (1 :: u16)) + 2 \<le> unat (v_num v)
      \<and> unat (1 :: u16) + unat (1 :: u16) \<le> length [seg_a, seg_b]
      \<and> add_buf v [seg_a, seg_b] 1 1 0xA = Some (True, v')
      \<and> load_u16 v' (avail_idx v') = Some 2"
proof -
  have p: "(0x100000 :: u64) \<noteq> 0" by simp
  from vring_ctor_fresh_ring [OF p, of 0 4 0]
  obtain v where c: "vring_ctor 0x100000 0 4 0 = Some v" and n: "v_num v = 4" and f: "fresh_ring v 0"
    by blast
  have r: "0 + (unat (1 :: u16) + unat (1 :: u16)) + 2 \<le> unat (v_num v)"
    by (simp add: n)
  have l: "unat (1 :: u16) + unat (1 :: u16) \<le> length [seg_a, seg_b]" by simp
  from add_buf_advances_idx [OF f r l, of "0xA"]
  obtain v' where a: "add_buf v [seg_a, seg_b] 1 1 0xA = Some (True, v')"
    and i: "load_u16 v' (avail_idx v') = Some (of_nat (0 + (unat (1 :: u16) + unat (1 :: u16))))"
    by blast
  from i have "load_u16 v' (avail_idx v') = Some 2" by simp
  with c f r l a show ?thesis by blast
qed

text \<open>
  The claim as stated, that a successful submit increments \<open>avail.idx\<close> by exactly one,
  fails for the two-segment chain on a fresh queue of size 4: the call returns
  \<^verbatim>\<open>true\<close> and \<open>avail.idx\<close> goes from 0 to 2.
\<close>

theorem add_buf_advances_idx_counterexample:
  "map_option fst queue4_submitted = Some True
   \<and> queue4 \<bind> (\<lambda>v. load_u16 v (avail_idx v)) = Some 0
   \<and> queue4_submitted \<bind> (\<lambda>(ok, v). load_u16 v (avail_idx v)) = Some 2"
  by (simp add: queue4_submitted_def queue4_def eval_simps)

subsection \<open>The descriptors a submit writes\<close>

text \<open>
  C2 does not hold of the code. The flags expression yields \<^verbatim>\<open>VRING_DESC_F_WRITE\<close>
  for every \<open>i\<close> and every \<open>in\<close>. On a fresh queue of size 4, \<^verbatim>\<open>add_buf\<close> with the two
  segments \<open>(0x1000, 0x10)\<close> and \<open>(0x2000, 0x20)\<close>, \<open>out = 1\<close> and \<open>in = 1\<close> returns
  \<^verbatim>\<open>true\<close>. The segments land, in order, in the descriptors 1 and 2. Both descriptors
  get the flags value 2, \<^verbatim>\<open>VRING_DESC_F_WRITE\<close> alone: the first one, a device-readable
  segment, is marked device-writable, and \<^verbatim>\<open>VRING_DESC_F_NEXT\<close> is set on neither.
  Each \<^verbatim>\<open>_next\<close> holds the descriptor's own index, and descriptor 0 is left untouched.
\<close>

theorem add_buf_descriptors_at_queue4:
  "(\<forall>i in'. flags_expr i in' = 2)
   \<and> map_option fst queue4_submitted = Some True
   \<and> queue4_submitted \<bind> (\<lambda>(ok, v). load_u64 v (desc_paddr (desc_at v 1))) = Some 0x1000
   \<and> queue4_submitted \<bind> (\<lambda>(ok, v). load_u32 v (desc_len (desc_at v 1))) = Some 0x10
   \<and> queue4_submitted \<bind> (\<lambda>(ok, v). load_u16 v (desc_flags (desc_at v 1))) = Some 2
   \<and> queue4_submitted \<bind> (\<lambda>(ok, v). load_u16 v (desc_next (desc_at v 1))) = Some 1
   \<and> queue4_submitted \<bind> (\<lambda>(ok, v). load_u64 v (desc_paddr (desc_at v 2))) = Some 0x2000
   \<and> queue4_submitted \<bind> (\<lambda>(ok, v). load_u32 v (desc_len (desc_at v 2))) = Some 0x20
   \<and> queue4_submitted \<bind> (\<lambda>(ok, v). load_u16 v (desc_flags (desc_at v 2))) = Some 2
   \<and> queue4_submitted \<bind> (\<lambda>(ok, v). load_u16 v (desc_next (desc_at v 2))) = Some 2
   \<and> queue4_submitted \<bind> (\<lambda>(ok, v). load_u16 v (desc_flags (desc_at v 0))) = Some 0"
proof -
  have "flags_expr i in' = 2" for i in'
    by (simp add: flags_expr_def VRING_DESC_F_NEXT_def VRING_DESC_F_WRITE_def or_eq_0_iff)
  then show ?thesis
    by (simp add: queue4_submitted_def queue4_def eval_simps del: flags_expr_def)
qed

subsection \<open>Submitting never fails\<close>

lemma add_buf_ok: "add_buf v sg out in' cookie = Some (ok, v') \<Longrightarrow> ok"
  unfolding add_buf_def by (auto simp: bind_eq_Some_conv)

text \<open>
  C3, as amended. \<^verbatim>\<open>add_buf\<close> has no queue-full failure: it contains no check of the
  free descriptors, and every call that returns returns \<^verbatim>\<open>true\<close>, whatever
  \<open>out + in\<close> is.
\<close>

theorem add_buf_only_true:
  assumes "add_buf v sg out in' cookie = Some (ok, v')"
  shows "ok"
  using assms by (rule add_buf_ok)

theorem add_buf_only_true_witness:
  "\<exists>v ok v'. queue4 = Some v \<and> add_buf v [seg_a, seg_b] 1 1 0xA = Some (ok, v') \<and> ok"
proof -
  have "queue4_submitted \<noteq> None"
    by (simp add: queue4_submitted_def queue4_def eval_simps)
  then have ne: "queue4 \<bind> (\<lambda>v. add_buf v [seg_a, seg_b] 1 1 0xA) \<noteq> None"
    unfolding queue4_submitted_def .
  then obtain v where q: "queue4 = Some v"
    by (cases queue4) simp_all
  from ne obtain ok v' where a: "add_buf v [seg_a, seg_b] 1 1 0xA = Some (ok, v')"
    unfolding q by (cases "add_buf v [seg_a, seg_b] 1 1 0xA") auto
  from add_buf_only_true [OF a] q a show ?thesis by blast
qed

text \<open>
  The claim as stated fails in its own scenario: on a queue of size 2, after two
  single-segment submits that returned \<^verbatim>\<open>true\<close>, the third one returns \<^verbatim>\<open>true\<close>
  as well, with no reclaim in between.
\<close>

theorem add_buf_only_true_counterexample:
  "map_option (\<lambda>(v, outs, rs). rs) queue2_three_submits
     = Some [Submitted True, Submitted True, Submitted True]"
  by (simp add: queue2_three_submits_def queue2_def eval_simps)

subsection \<open>Reclaiming\<close>

lemma run_reclaims:
  "run v outs (map Reclaim lens) = Some (v, outs, map (Reclaimed 0) lens)"
  by (induction lens) (simp_all add: get_buf_def)

text \<open>
  C4, as amended. \<^verbatim>\<open>get_buf\<close> drains nothing: every call returns the null pointer and
  leaves \<^verbatim>\<open>*len\<close> and the ring as they were, whatever the used ring holds; a run of
  any number of \<^verbatim>\<open>get_buf\<close> calls yields null pointers only and changes neither the
  ring nor the outstanding chains. In particular it yields nothing when no new completion
  exists.
\<close>

theorem get_buf_returns_null:
  "get_buf v len = (0, len, v)
   \<and> run v outs (map Reclaim lens) = Some (v, outs, map (Reclaimed 0) lens)"
  by (simp add: get_buf_def run_reclaims)

text \<open>
  The claim as stated fails in the end-to-end scenario: queue size 4, the two-segment
  chain submitted with cookie \<open>0xA\<close>, and the device's completion \<open>(1, 37)\<close> in the used
  ring with \<open>used.idx = 1\<close>. \<^verbatim>\<open>get_buf\<close> returns the null pointer, not the cookie, and
  leaves \<^verbatim>\<open>*len\<close> at the 0 it was called with, not 37.
\<close>

theorem get_buf_returns_null_counterexample:
  "queue4_completed \<bind> (\<lambda>v. load_u16 v (used_idx v)) = Some 1
   \<and> queue4_completed \<bind> (\<lambda>v. load_u32 v (used_ring v 0)) = Some 1
   \<and> queue4_completed \<bind> (\<lambda>v. load_u32 v (used_ring v 0 + 4)) = Some 37
   \<and> map_option (\<lambda>v. fst (get_buf v 0)) queue4_completed = Some 0
   \<and> map_option (\<lambda>v. fst (snd (get_buf v 0))) queue4_completed = Some 0
   \<and> (0 :: u64) \<noteq> 0xA"
  by (simp add: queue4_completed_def queue4_submitted_def queue4_def eval_simps)

subsection \<open>Outstanding chains in a run\<close>

lemma run_fresh:
  assumes "fresh_ring v k" and "k + chain_total (submitted cs) + 2 \<le> unat (v_num v)"
    and "\<forall>c \<in> set cs. enough_nodes c"
  shows "\<exists>v'. run v outs cs = Some (v', outs @ submitted cs, map answer cs)
           \<and> fresh_ring v' (k + chain_total (submitted cs)) \<and> v_num v' = v_num v
           \<and> heap_size v' = heap_size v \<and> (\<forall>x < 16 * (k + 1). heap v' x = heap v x)
           \<and> length (segments cs) = chain_total (submitted cs)
           \<and> (\<forall>j < chain_total (submitted cs).
                 load_u64 v' (desc_paddr (16 * (k + 1 + j))) = Some (sg_paddr (segments cs ! j))
               \<and> load_u32 v' (desc_len (16 * (k + 1 + j))) = Some (sg_len (segments cs ! j)))"
  using assms
proof (induction cs arbitrary: v k outs)
  case Nil
  then show ?case by (simp add: chain_total_def)
next
  case (Cons c cs)
  show ?case
  proof (cases c)
    case (Reclaim len)
    have t: "chain_total (submitted (c # cs)) = chain_total (submitted cs)"
      by (simp add: Reclaim)
    from Cons.prems(3) have e: "\<forall>c \<in> set cs. enough_nodes c" by simp
    from Cons.IH [OF Cons.prems(1) Cons.prems(2) [unfolded t] e, of outs]
    obtain v' where r: "run v outs cs = Some (v', outs @ submitted cs, map answer cs)"
      and rest: "fresh_ring v' (k + chain_total (submitted cs)) \<and> v_num v' = v_num v
           \<and> heap_size v' = heap_size v \<and> (\<forall>x < 16 * (k + 1). heap v' x = heap v x)
           \<and> length (segments cs) = chain_total (submitted cs)
           \<and> (\<forall>j < chain_total (submitted cs).
                 load_u64 v' (desc_paddr (16 * (k + 1 + j))) = Some (sg_paddr (segments cs ! j))
               \<and> load_u32 v' (desc_len (16 * (k + 1 + j))) = Some (sg_len (segments cs ! j)))"
      by blast
    have "run v outs (c # cs) = Some (v', outs @ submitted (c # cs), map answer (c # cs))"
      by (simp add: Reclaim get_buf_def r)
    with rest show ?thesis unfolding t by (simp add: Reclaim)
  next
    case (Submit sg out in' cookie)
    let ?n = "unat out + unat in'"
    let ?t = "chain_total (submitted cs)"
    have t: "chain_total (submitted (c # cs)) = ?n + ?t"
      by (simp add: Submit chain_total_def)
    from Cons.prems(3) have len: "?n \<le> length sg" and e: "\<forall>c \<in> set cs. enough_nodes c"
      by (simp_all add: Submit)
    have room: "k + ?n + 2 \<le> unat (v_num v)"
      using Cons.prems(2) unfolding t by simp
    from add_buf_writes [OF Cons.prems(1) room len, of cookie]
    obtain v1 where a: "add_buf v sg out in' cookie = Some (True, v1)"
      and f1: "fresh_ring v1 (k + ?n)" and n1: "v_num v1 = v_num v"
      and hs1: "heap_size v1 = heap_size v"
      and fr1: "\<And>x. x < 16 * (k + 1) \<Longrightarrow> heap v1 x = heap v x"
      and ld1: "\<And>j. j < ?n \<Longrightarrow>
                  load_u64 v1 (desc_paddr (16 * (k + 1 + j))) = Some (sg_paddr (sg ! j))
                \<and> load_u32 v1 (desc_len (16 * (k + 1 + j))) = Some (sg_len (sg ! j))"
      by blast
    have room1: "k + ?n + ?t + 2 \<le> unat (v_num v1)"
      using Cons.prems(2) unfolding t n1 by simp
    from Cons.IH [OF f1 room1 e, of "outs @ [(cookie, ?n)]"]
    obtain v' where r: "run v1 (outs @ [(cookie, ?n)]) cs
                          = Some (v', (outs @ [(cookie, ?n)]) @ submitted cs, map answer cs)"
      and f: "fresh_ring v' (k + ?n + ?t)" and n: "v_num v' = v_num v1"
      and hs: "heap_size v' = heap_size v1"
      and fr: "\<And>x. x < 16 * (k + ?n + 1) \<Longrightarrow> heap v' x = heap v1 x"
      and lg: "length (segments cs) = ?t"
      and ld: "\<And>j. j < ?t \<Longrightarrow>
                  load_u64 v' (desc_paddr (16 * (k + ?n + 1 + j))) = Some (sg_paddr (segments cs ! j))
                \<and> load_u32 v' (desc_len (16 * (k + ?n + 1 + j))) = Some (sg_len (segments cs ! j))"
      by blast
    have run: "run v outs (c # cs) = Some (v', outs @ submitted (c # cs), map answer (c # cs))"
      by (simp add: Submit a r)
    have lt: "length (take ?n sg) = ?n" using len by simp
    have lg': "length (segments (c # cs)) = ?n + ?t"
      by (simp add: Submit lg lt del: length_take)
    have frame: "heap v' x = heap v x" if "x < 16 * (k + 1)" for x
    proof -
      have "heap v' x = heap v1 x" using that by (intro fr) simp
      then show ?thesis using fr1 [OF that] by (simp only:)
    qed
    have all: "load_u64 v' (desc_paddr (16 * (k + 1 + j))) = Some (sg_paddr (segments (c # cs) ! j))
             \<and> load_u32 v' (desc_len (16 * (k + 1 + j))) = Some (sg_len (segments (c # cs) ! j))"
      if "j < ?n + ?t" for j
    proof (cases "j < ?n")
      case True
      have s: "segments (c # cs) ! j = sg ! j"
        using True lt by (simp add: Submit nth_append del: length_take)
      have "load_u64 v' (desc_paddr (16 * (k + 1 + j))) = load_u64 v1 (desc_paddr (16 * (k + 1 + j)))"
        using True by (intro load_u64_frame [OF hs] fr) (simp add: desc_paddr_def)
      moreover have "load_u32 v' (desc_len (16 * (k + 1 + j))) = load_u32 v1 (desc_len (16 * (k + 1 + j)))"
        using True by (intro load_u32_frame [OF hs] fr) (simp add: desc_len_def)
      ultimately show ?thesis using ld1 [OF True] by (simp only: s)
    next
      case False
      then have j: "j = ?n + (j - ?n)" and jt: "j - ?n < ?t" using that by simp_all
      have s: "segments (c # cs) ! j = segments cs ! (j - ?n)"
        using False lt by (simp add: Submit nth_append del: length_take)
      have "k + ?n + 1 + (j - ?n) = k + 1 + j" using False by simp
      with ld [OF jt] show ?thesis by (simp only: s)
    qed
    have "fresh_ring v' (k + (?n + ?t))" using f by (simp only: add.assoc)
    moreover have "v_num v' = v_num v" using n n1 by simp
    moreover have "heap_size v' = heap_size v" using hs hs1 by simp
    ultimately show ?thesis unfolding t using run lg' frame all by blast
  qed
qed

text \<open>
  C7, as amended. The source keeps no free count and takes no descriptor back. On a ring
  in the constructor's layout whose slots hold the constructor's next-pointers and whose
  \<open>avail.idx\<close> is \<open>k\<close>, every run of \<^verbatim>\<open>add_buf\<close> and \<^verbatim>\<open>get_buf\<close> calls whose
  chains fit (each list has its \<open>out + in\<close> nodes, and \<open>k\<close> plus the sum of
  \<open>out + in\<close> over the submits, plus 2, is at most \<open>num\<close>) runs to its end: each
  \<^verbatim>\<open>add_buf\<close> returns \<^verbatim>\<open>true\<close>, each \<^verbatim>\<open>get_buf\<close> returns the null pointer, and
  the outstanding chains are those of all the submits. In the ring, \<open>avail.idx\<close>, the
  cursor of the free list, has advanced by the sum of the lengths of the submitted chains,
  the slots of the available ring are as they were, and the descriptors \<open>k + 1\<close>,
  \<open>k + 2\<close>, ... hold, in the order of the calls, the addresses and lengths of the
  segments of the submitted chains: each \<^verbatim>\<open>add_buf\<close> has taken the next \<open>out + in\<close>
  descriptors, every descriptor taken belongs to one chain, and none has gone back.
\<close>

theorem run_chains_only_grow:
  assumes "fresh_ring v k"
    and "k + chain_total (submitted cs) + 2 \<le> unat (v_num v)"
    and "\<forall>c \<in> set cs. enough_nodes c"
  shows "\<exists>v'. run v outs cs = Some (v', outs @ submitted cs, map answer cs)
           \<and> chain_total (outs @ submitted cs) = chain_total outs + chain_total (submitted cs)
           \<and> load_u16 v' (avail_idx v') = Some (of_nat (k + chain_total (submitted cs)))
           \<and> fresh_ring v' (k + chain_total (submitted cs))
           \<and> length (segments cs) = chain_total (submitted cs)
           \<and> (\<forall>j < chain_total (submitted cs).
                 load_u64 v' (desc_paddr (desc_at v' (of_nat (k + 1 + j))))
                   = Some (sg_paddr (segments cs ! j))
               \<and> load_u32 v' (desc_len (desc_at v' (of_nat (k + 1 + j))))
                   = Some (sg_len (segments cs ! j)))"
proof -
  let ?t = "chain_total (submitted cs)"
  from run_fresh [OF assms, of outs]
  obtain v' where r: "run v outs cs = Some (v', outs @ submitted cs, map answer cs)"
    and f: "fresh_ring v' (k + ?t)" and n: "v_num v' = v_num v"
    and lg: "length (segments cs) = ?t"
    and ld: "\<And>j. j < ?t \<Longrightarrow>
                load_u64 v' (desc_paddr (16 * (k + 1 + j))) = Some (sg_paddr (segments cs ! j))
              \<and> load_u32 v' (desc_len (16 * (k + 1 + j))) = Some (sg_len (segments cs ! j))"
    by blast
  have nn: "unat (v_num v) < 2 ^ 16" using unsigned_less [of "v_num v", where 'a = nat] by simp
  have d: "desc_at v' (of_nat (k + 1 + j)) = 16 * (k + 1 + j)" if "j < ?t" for j
  proof -
    have "k + 1 + j < 2 ^ 16" using that assms(2) nn by simp
    then have "unat (of_nat (k + 1 + j) :: u16) = k + 1 + j" by (rule unat_of_nat_u16)
    then show ?thesis unfolding desc_at_def by (simp add: fresh_ringD(1) [OF f])
  qed
  have all: "load_u64 v' (desc_paddr (desc_at v' (of_nat (k + 1 + j)))) = Some (sg_paddr (segments cs ! j))
           \<and> load_u32 v' (desc_len (desc_at v' (of_nat (k + 1 + j)))) = Some (sg_len (segments cs ! j))"
    if "j < ?t" for j
    using ld [OF that] by (simp only: d [OF that])
  have ct: "chain_total (outs @ submitted cs) = chain_total outs + ?t"
    by (simp add: chain_total_def)
  from r ct fresh_ringD(4) [OF f] f lg all show ?thesis by blast
qed

theorem run_chains_only_grow_witness:
  "\<exists>v v'. vring_ctor 0x100000 0 4 0 = Some v \<and> fresh_ring v 0
      \<and> 0 + chain_total (submitted [Submit [seg_a] 1 0 0xA, Reclaim 0, Submit [seg_b] 0 1 0xB]) + 2
          \<le> unat (v_num v)
      \<and> (\<forall>c \<in> set [Submit [seg_a] 1 0 0xA, Reclaim 0, Submit [seg_b] 0 1 0xB]. enough_nodes c)
      \<and> run v [] [Submit [seg_a] 1 0 0xA, Reclaim 0, Submit [seg_b] 0 1 0xB]
          = Some (v', [(0xA, 1), (0xB, 1)], [Submitted True, Reclaimed 0 0, Submitted True])
      \<and> load_u16 v' (avail_idx v') = Some 2
      \<and> load_u64 v' (desc_paddr (desc_at v' 1)) = Some 0x1000
      \<and> load_u64 v' (desc_paddr (desc_at v' 2)) = Some 0x2000"
proof -
  let ?cs = "[Submit [seg_a] 1 0 0xA, Reclaim 0, Submit [seg_b] 0 1 0xB]"
  have p: "(0x100000 :: u64) \<noteq> 0" by simp
  from vring_ctor_fresh_ring [OF p, of 0 4 0]
  obtain v where c: "vring_ctor 0x100000 0 4 0 = Some v" and n: "v_num v = 4" and f: "fresh_ring v 0"
    by blast
  have t: "chain_total (submitted ?cs) = 2" by (simp add: chain_total_def)
  have h2: "0 + chain_total (submitted ?cs) + 2 \<le> unat (v_num v)"
    by (simp add: chain_total_def n)
  have h3: "\<forall>c \<in> set ?cs. enough_nodes c" by simp
  from run_chains_only_grow [OF f h2 h3, of "[]"]
  obtain v' where r: "run v [] ?cs = Some (v', [] @ submitted ?cs, map answer ?cs)"
    and i: "load_u16 v' (avail_idx v') = Some (of_nat (0 + chain_total (submitted ?cs)))"
    and l: "\<And>j. j < chain_total (submitted ?cs) \<Longrightarrow>
                 load_u64 v' (desc_paddr (desc_at v' (of_nat (0 + 1 + j))))
                   = Some (sg_paddr (segments ?cs ! j))"
    by blast
  from r have r': "run v [] ?cs
      = Some (v', [(0xA, 1), (0xB, 1)], [Submitted True, Reclaimed 0 0, Submitted True])"
    by simp
  from i have i': "load_u16 v' (avail_idx v') = Some 2" by (simp add: chain_total_def)
  have "load_u64 v' (desc_paddr (desc_at v' 1)) = Some 0x1000"
    using l [of 0] by (simp add: chain_total_def seg_a_def)
  moreover have "load_u64 v' (desc_paddr (desc_at v' 2)) = Some 0x2000"
    using l [of 1] by (simp add: chain_total_def seg_b_def)
  ultimately show ?thesis using c f h2 h3 r' i' by blast
qed

text \<open>
  The claim as stated fails on a queue of size 2 after three single-segment submits: all
  three return \<^verbatim>\<open>true\<close> and none is reclaimed, so the lengths of the outstanding
  chains sum to 3, which exceeds \<open>num = 2\<close>: no free count, a natural number, added to 3
  gives 2, and three chains cannot own distinct slots of two. The descriptor slots are not
  partitioned either: on a fresh queue of size 4 the free list, the next-pointers in the
  slots of the available ring, holds the entries 1, 2, 3 and 4, so that slot 0 is in no
  list and the last entry is no slot of the table.
\<close>

theorem run_chains_only_grow_counterexample:
  "map_option (\<lambda>(v, outs, rs). (unat (v_num v), rs, chain_total outs)) queue2_three_submits
     = Some (2, [Submitted True, Submitted True, Submitted True], 3)
   \<and> (2 :: nat) < 3
   \<and> map_option (\<lambda>v. (unat (v_num v), load_u16 v (avail_ring v 0), load_u16 v (avail_ring v 1),
                        load_u16 v (avail_ring v 2), load_u16 v (avail_ring v 3))) queue4
     = Some (4, Some 1, Some 2, Some 3, Some 4)"
  by (simp add: queue2_three_submits_def queue2_def queue4_def chain_total_def eval_simps)


end
